theory Spec2Isabelle
  imports Main "HOL-Library.Multiset" "HOL-Library.List_Lexorder" "HOL-Library.Char_ord"
begin

section \<open>Data shared by the packages\<close>

text \<open>
  A Go \<open>error\<close> raised outside the config package is modelled by its message;
  \<open>errors.WithStack\<close> keeps the message, so it is the identity here.
\<close>

type_synonym err = string

text \<open>
  \<open>services.ServiceConfig\<close>, with the fields the sources under study read or write.
  \<open>Path\<close> is a \<open>*string\<close>: \<open>None\<close> is the nil pointer.
\<close>

record ServiceConfig =
  Name :: string
  Description :: string
  Aliases :: "string list"
  Path :: "string option"
  RequiresSudo :: bool
  Env :: "string list"
  ConfigFile :: string

record ContextOverride =
  OverrideEnv :: "string list"

record OperationConfig =
  WorkingDir :: string
  EdwardExecutable :: string
  Exclusions :: "string list"
  SkipBuild :: bool
  NoWatch :: bool
  Tags :: "string list"
  LogFile :: string

text \<open>
  \<open>instance.Instance\<close>. The field \<open>Service\<close> is a reference to the service definition;
  \<open>None\<close> is the nil reference, which is what the zero value \<open>&Instance{}\<close> holds.
\<close>

record Instance =
  Service :: "ServiceConfig option"
  Pid :: int
  InstanceConfigFile :: string
  Overrides :: ContextOverride

definition zeroInstance :: Instance where
  "zeroInstance = \<lparr>Service = None, Pid = 0, InstanceConfigFile = [], Overrides = \<lparr>OverrideEnv = []\<rparr>\<rparr>"

text \<open>A call either returns or panics (a nil dereference).\<close>

datatype 'a Outcome = Panic | Return 'a

section \<open>Task tracker\<close>

datatype TaskState =
  TaskStatePending | TaskStateInProgress | TaskStateSuccess | TaskStateFailed | TaskStateWarning

record TaskNode =
  State :: TaskState
  Output :: "string list"

text \<open>
  A task handle is the lineage of the node below the root; the tracker maps every
  node that exists to its state and its accumulated output lines.
\<close>

type_synonym Task = "string list"
type_synonym Tracker = "Task \<rightharpoonup> TaskNode"

text \<open>
  Modelled from the spec: the tracker package is not among the sources. Section 4.4:
  \<open>task.Child(name)\<close> returns, creating it if absent, the named child, and repeated calls
  address the same node; a node starts Pending (section 3).
\<close>

definition createIfAbsent :: "Task \<Rightarrow> Tracker \<Rightarrow> Tracker" where
  "createIfAbsent p tr =
     (case tr p of
        None \<Rightarrow> tr(p \<mapsto> \<lparr>State = TaskStatePending, Output = []\<rparr>)
      | Some n \<Rightarrow> tr)"

definition Child :: "Task \<Rightarrow> string \<Rightarrow> Tracker \<Rightarrow> Task \<times> Tracker" where
  "Child t name tr = (t @ [name], createIfAbsent (t @ [name]) tr)"

text \<open>
  Modelled from the spec: section 4.4, \<open>task.SetState(state, outputLines...)\<close> transitions
  the state and appends the output lines. The handler it invokes belongs to the
  presentation layer and is left out.
\<close>

definition SetState :: "Task \<Rightarrow> TaskState \<Rightarrow> string list \<Rightarrow> Tracker \<Rightarrow> Tracker" where
  "SetState t s msgs tr =
     (case tr t of
        None \<Rightarrow> tr(t \<mapsto> \<lparr>State = s, Output = msgs\<rparr>)
      | Some n \<Rightarrow> tr(t \<mapsto> \<lparr>State = s, Output = Output n @ msgs\<rparr>))"

section \<open>The system an operation runs in\<close>

text \<open>
  The state threaded through the instance operations: the task tree and the world
  outside the program (state directory, log directory, processes), of which the
  model knows nothing but what the helpers below do to it.
\<close>

record 'w System =
  tracker :: Tracker
  world :: 'w

record Cmd =
  CmdArgs :: "string list"
  CmdEnv :: "string list"

text \<open>
  Helpers of the repository and of the Go library that the sources call but that are
  not among them; they are parameters of the model. A helper that can fail returns its
  error; a helper that touches the disk or a process returns the new world.
\<close>

record 'w Ops =
  IsExcluded :: "OperationConfig \<Rightarrow> ServiceConfig \<Rightarrow> bool"
  HasLaunchStep :: "ServiceConfig \<Rightarrow> bool"
  HasBuildStep :: "ServiceConfig \<Rightarrow> bool"
  GetName :: "ServiceConfig \<Rightarrow> string"
  Load :: "ServiceConfig \<Rightarrow> ContextOverride \<Rightarrow> 'w \<Rightarrow> (err + Instance) \<times> 'w"
  clearState :: "Instance \<Rightarrow> 'w \<Rightarrow> 'w"
  DeleteAllStatusesForService :: "ServiceConfig \<Rightarrow> 'w \<Rightarrow> err option \<times> 'w"
  removeRunLog :: "ServiceConfig \<Rightarrow> 'w \<Rightarrow> 'w"
  getLaunchCommand :: "Instance \<Rightarrow> OperationConfig \<Rightarrow> 'w \<Rightarrow> err + Cmd"
  osEnviron :: "'w \<Rightarrow> string list"
  cmdStart :: "Cmd \<Rightarrow> 'w \<Rightarrow> (err + int) \<times> 'w"
  save :: "Instance \<Rightarrow> 'w \<Rightarrow> err option \<times> 'w"
  WaitUntilRunning :: "Cmd \<Rightarrow> ServiceConfig \<Rightarrow> 'w \<Rightarrow> err option \<times> 'w"
  logToStringSlice :: "ServiceConfig \<Rightarrow> 'w \<Rightarrow> err + string list"
  warmupRun :: "ServiceConfig \<Rightarrow> Task \<Rightarrow> 'w System \<Rightarrow> 'w System"
  backendStop :: "Instance \<Rightarrow> 'w \<Rightarrow> err option \<times> 'w"

section \<open>Worker pool\<close>

text \<open>
  The closures handed to the pool, as data: the pool runs them later, on its own
  execution contexts.
\<close>

datatype Work =
  StartWork Instance OperationConfig Task
| StopWork Instance OperationConfig ContextOverride Task

record Pool =
  stopped :: bool
  queue :: "Work list"

text \<open>
  Modelled from the spec: the worker package is not among the sources. Section 4.3:
  \<open>Enqueue\<close> accepts a unit of work, and after \<open>Stop()\<close> it fails with a "pool stopped"
  error.
\<close>

definition Enqueue :: "Pool \<Rightarrow> Work \<Rightarrow> err option \<times> Pool" where
  "Enqueue p w =
     (if stopped p then (Some ''pool stopped'', p)
      else (None, p\<lparr>queue := queue p @ [w]\<rparr>))"

section \<open>instance.Stop\<close>

text \<open>
  \<open>Stop\<close> of instance/stop.go. The instance is loaded; with pid 0 its state is cleared
  and nothing is enqueued, otherwise the stop is handed to the pool.
\<close>

definition Stop ::
  "'w Ops \<Rightarrow> ServiceConfig \<Rightarrow> OperationConfig \<Rightarrow> ContextOverride \<Rightarrow> Task \<Rightarrow> Pool \<Rightarrow> 'w System
     \<Rightarrow> err option \<times> Pool \<times> 'w System" where
  "Stop ops c cfg overrides task pool st =
     (case Load ops c overrides (world st) of
        (Inl e, w) \<Rightarrow> (Some e, pool, st\<lparr>world := w\<rparr>)
      | (Inr inst, w) \<Rightarrow>
          if Pid inst = 0 then (None, pool, st\<lparr>world := clearState ops inst w\<rparr>)
          else (case Enqueue pool (StopWork inst cfg overrides task) of
                  (e, pool') \<Rightarrow> (e, pool', st\<lparr>world := w\<rparr>)))"

text \<open>The Start task of a service under a task, and the output lines a node holds.\<close>

definition startPath :: "'w Ops \<Rightarrow> Task \<Rightarrow> ServiceConfig \<Rightarrow> Task" where
  "startPath ops task svc = task @ [GetName ops svc, ''Start'']"

definition outputAt :: "Tracker \<Rightarrow> Task \<Rightarrow> string list" where
  "outputAt tr p = (case tr p of None \<Rightarrow> [] | Some n \<Rightarrow> Output n)"

section \<open>instance.Launch\<close>

text \<open>\<open>Launch\<close>: an excluded service is left alone, otherwise the start is handed to the pool.\<close>

definition Launch ::
  "'w Ops \<Rightarrow> ServiceConfig \<Rightarrow> OperationConfig \<Rightarrow> ContextOverride \<Rightarrow> Task \<Rightarrow> Pool \<Rightarrow> 'w System
     \<Rightarrow> err option \<times> Pool \<times> 'w System" where
  "Launch ops c cfg overrides task pool st =
     (if IsExcluded ops cfg c then (None, pool, st)
      else
        (case Load ops c overrides (world st) of
           (Inl e, w) \<Rightarrow> (Some e, pool, st\<lparr>world := w\<rparr>)
         | (Inr inst, w) \<Rightarrow>
             (case Enqueue pool (StartWork inst cfg task) of
                (e, pool') \<Rightarrow> (e, pool', st\<lparr>world := w\<rparr>))))"

section \<open>Instance.StopSync\<close>

text \<open>
  Modelled from the spec: \<open>StopSync\<close> is not among the sources. Section 4.2: it is a
  no-op if the instance is not running (pid 0) beyond clearing stale persisted state;
  otherwise it invokes the backend stop action and waits for the process to exit,
  clears the persisted pid record, and reports Success or Failed accordingly. Section 3:
  Stop clears the pid. Section 7: a failing stop action is reported as Failed and
  propagated. The report goes to the child "Stop" of the service's node under the task
  it is given, as Start and Build do with theirs.
\<close>

definition StopSync ::
  "'w Ops \<Rightarrow> OperationConfig \<Rightarrow> ContextOverride \<Rightarrow> Task \<Rightarrow> Instance \<Rightarrow> 'w System
     \<Rightarrow> (err option \<times> Instance \<times> 'w System) Outcome" where
  "StopSync ops cfg overrides task c st =
     (if Pid c = 0 then Return (None, c, st\<lparr>world := clearState ops c (world st)\<rparr>)
      else
        (case Service c of
           None \<Rightarrow> Panic
         | Some svc \<Rightarrow>
             (case Child task (GetName ops svc) (tracker st) of
                (t1, tr1) \<Rightarrow>
                  (case Child t1 ''Stop'' tr1 of
                     (job, tr2) \<Rightarrow>
                       (case backendStop ops c (world st) of
                          (Some e, w1) \<Rightarrow>
                            Return (Some e, c,
                                    \<lparr>tracker = SetState job TaskStateFailed [e] tr2, world = w1\<rparr>)
                        | (None, w1) \<Rightarrow>
                            Return (None, c\<lparr>Pid := 0\<rparr>,
                                    \<lparr>tracker = SetState job TaskStateSuccess [] tr2,
                                     world = clearState ops c w1\<rparr>))))))"

section \<open>Instance.StartAsync\<close>

text \<open>
  Lines 106 to 119 of \<open>StartAsync\<close>: the service did not come up. The log is read back,
  the Start task is set to Failed, and \<open>StopSync\<close> runs under the task "Cleanup"; its
  error, if any, replaces the original one.
\<close>

definition StartAsync_failed ::
  "'w Ops \<Rightarrow> OperationConfig \<Rightarrow> Task \<Rightarrow> Instance \<Rightarrow> ServiceConfig \<Rightarrow> Task \<Rightarrow> err \<Rightarrow> 'w System
     \<Rightarrow> (err option \<times> Instance \<times> 'w System) Outcome" where
  "StartAsync_failed ops cfg task c svc startTask e st =
     (let tr1 =
            (case logToStringSlice ops svc (world st) of
               Inl readingErr \<Rightarrow>
                 SetState startTask TaskStateFailed
                   [''Could not read log'', readingErr, ''Original error: '' @ e] (tracker st)
             | Inr lg \<Rightarrow> SetState startTask TaskStateFailed (lg @ [e]) (tracker st))
      in (case Child task ''Cleanup'' tr1 of
            (cleanup, tr2) \<Rightarrow>
              (case StopSync ops cfg (Overrides c) cleanup c (st\<lparr>tracker := tr2\<rparr>) of
                 Panic \<Rightarrow> Panic
               | Return (Some stopErr, c', st') \<Rightarrow> Return (Some stopErr, c', st')
               | Return (None, c', st') \<Rightarrow> Return (Some e, c', st'))))"

text \<open>
  Lines 56 to 105 of \<open>StartAsync\<close>: statuses are cleared, the run log is removed, the
  command is built and started, the pid is stored and saved, and the service is
  awaited. The goroutine that copies followed log lines into the Start task runs
  concurrently and only adds output lines to that task; it is not part of this
  sequential model.
\<close>

definition StartAsync_launch ::
  "'w Ops \<Rightarrow> OperationConfig \<Rightarrow> Task \<Rightarrow> Instance \<Rightarrow> ServiceConfig \<Rightarrow> Task \<Rightarrow> 'w System
     \<Rightarrow> (err option \<times> Instance \<times> 'w System) Outcome" where
  "StartAsync_launch ops cfg task c svc startTask st =
     (case DeleteAllStatusesForService ops svc (world st) of
        (Some e, w1) \<Rightarrow> Return (Some e, c, st\<lparr>world := w1\<rparr>)
      | (None, w1) \<Rightarrow>
          (let w2 = removeRunLog ops svc w1
           in (case getLaunchCommand ops c cfg w2 of
                 Inl e \<Rightarrow>
                   Return (Some e, c,
                           \<lparr>tracker = SetState startTask TaskStateFailed [e] (tracker st),
                            world = w2\<rparr>)
               | Inr cmd0 \<Rightarrow>
                   (let cmd = cmd0\<lparr>CmdEnv := (osEnviron ops w2 @ OverrideEnv (Overrides c)) @ Env svc\<rparr>
                    in (case cmdStart ops cmd w2 of
                          (Inl e, w3) \<Rightarrow>
                            Return (Some e, c,
                                    \<lparr>tracker = SetState startTask TaskStateFailed [] (tracker st),
                                     world = w3\<rparr>)
                        | (Inr pid, w3) \<Rightarrow>
                            (let c1 = c\<lparr>Pid := pid\<rparr>
                             in (case save ops c1 w3 of
                                   (Some e, w4) \<Rightarrow>
                                     Return (Some e, c1,
                                             \<lparr>tracker = SetState startTask TaskStateFailed [] (tracker st),
                                              world = w4\<rparr>)
                                 | (None, w4) \<Rightarrow>
                                     (case WaitUntilRunning ops cmd svc w4 of
                                        (None, w5) \<Rightarrow>
                                          Return (None, c1,
                                                  warmupRun ops svc task
                                                    \<lparr>tracker = SetState startTask TaskStateSuccess [] (tracker st),
                                                     world = w5\<rparr>)
                                      | (Some e, w5) \<Rightarrow>
                                          StartAsync_failed ops cfg task c1 svc startTask e
                                            \<lparr>tracker = tracker st, world = w5\<rparr>))))))))"

text \<open>
  \<open>StartAsync\<close>, lines 39 to 54: the two early returns, the Start task, and the
  already-running case. A nil service reference panics at its first use.
\<close>

definition StartAsync ::
  "'w Ops \<Rightarrow> OperationConfig \<Rightarrow> Task \<Rightarrow> Instance \<Rightarrow> 'w System
     \<Rightarrow> (err option \<times> Instance \<times> 'w System) Outcome" where
  "StartAsync ops cfg task c st =
     (case Service c of
        None \<Rightarrow> Panic
      | Some svc \<Rightarrow>
          if IsExcluded ops cfg svc then Return (None, c, st)
          else if \<not> HasLaunchStep ops svc then Return (None, c, st)
          else
            (case Child task (GetName ops svc) (tracker st) of
               (t1, tr1) \<Rightarrow>
                 (case Child t1 ''Start'' tr1 of
                    (startTask, tr2) \<Rightarrow>
                      (let tr3 = SetState startTask TaskStateInProgress [] tr2
                       in if Pid c \<noteq> 0
                          then Return (None, c,
                                 st\<lparr>tracker := SetState startTask TaskStateWarning [''Already running''] tr3\<rparr>)
                          else StartAsync_launch ops cfg task c svc startTask (st\<lparr>tracker := tr3\<rparr>)))))"

section \<open>instance.LoadRunningServices\<close>

record FileInfo =
  FileName :: string
  IsDir :: bool

text \<open>
  The Go library calls of \<open>LoadRunningServices\<close>, as parameters: \<open>ioutil.ReadDir\<close>,
  \<open>ioutil.ReadFile\<close>, \<open>path.Join\<close> and \<open>json.Unmarshal\<close>, which returns its error and
  the instance it decoded into.
\<close>

record 'w StateFiles =
  ReadDir :: "string \<Rightarrow> 'w \<Rightarrow> err + FileInfo list"
  ReadFile :: "string \<Rightarrow> 'w \<Rightarrow> err + string"
  pathJoin :: "string \<Rightarrow> string \<Rightarrow> string"
  jsonUnmarshal :: "string \<Rightarrow> Instance \<Rightarrow> err option \<times> Instance"

text \<open>
  The loop of \<open>LoadRunningServices\<close> (lines 18 to 32). The error of \<open>json.Unmarshal\<close>
  is dropped; line 30 writes through \<open>command.Service\<close>, which panics when that
  reference is nil.
\<close>

fun loadStateFiles ::
  "'w StateFiles \<Rightarrow> string \<Rightarrow> 'w \<Rightarrow> FileInfo list \<Rightarrow> ServiceConfig list
     \<Rightarrow> (ServiceConfig list \<times> err option) Outcome" where
  "loadStateFiles fs stateDir w [] services = Return (services, None)"
| "loadStateFiles fs stateDir w (file # rest) services =
     (if IsDir file then loadStateFiles fs stateDir w rest services
      else
        (case ReadFile fs (pathJoin fs stateDir (FileName file)) w of
           Inl e \<Rightarrow> Return ([], Some e)
         | Inr raw \<Rightarrow>
             (case jsonUnmarshal fs raw zeroInstance of
                (unmarshalErr, command) \<Rightarrow>
                  (case Service command of
                     None \<Rightarrow> Panic
                   | Some svc \<Rightarrow>
                       loadStateFiles fs stateDir w rest
                         (services @ [svc\<lparr>ConfigFile := InstanceConfigFile command\<rparr>])))))"

definition LoadRunningServices ::
  "'w StateFiles \<Rightarrow> string \<Rightarrow> 'w \<Rightarrow> (ServiceConfig list \<times> err option) Outcome" where
  "LoadRunningServices fs stateDir w =
     (case ReadDir fs stateDir w of
        Inl e \<Rightarrow> Return ([], Some e)
      | Inr stateFiles \<Rightarrow> loadStateFiles fs stateDir w stateFiles [])"

section \<open>The builder\<close>



fun joinStrings :: "string list \<Rightarrow> string \<Rightarrow> string" where
  "joinStrings [] sep = []"
| "joinStrings [x] sep = x"
| "joinStrings (x # y # ys) sep = x @ sep @ joinStrings (y # ys) sep"



section \<open>Restart\<close>
















section \<open>The config resolver\<close>

text \<open>\<open>GroupDef\<close>: a group as the config file declares it, its children given by name.\<close>

record GroupDef =
  GroupName :: string
  GroupAliases :: "string list"
  GroupDescription :: string
  Children :: "string list"
  GroupEnv :: "string list"

text \<open>
  \<open>services.ServiceGroupConfig\<close>. \<open>Services\<close> and \<open>Groups\<close> are slices of references.
  Every service and every group that \<open>initMaps\<close> allocates is stored in its map under its
  own name, and a name is stored at most once (a second definition of a name ends
  \<open>initMaps\<close> with the duplicate error before it is stored), so a reference is modelled
  by the name it is stored under, the two maps are the store, and the comparison of two
  references is the comparison of their names.
\<close>

record ServiceGroupConfig =
  GroupConfigName :: string
  GroupConfigAliases :: "string list"
  GroupConfigDescription :: string
  Services :: "string list"
  Groups :: "string list"
  GroupConfigEnv :: "string list"
  ChildOrder :: "string list"

record Config =
  workingDir :: string
  TelemetryScript :: string
  MinEdwardVersion :: string
  Imports :: "string list"
  ImportedGroups :: "GroupDef list"
  ImportedServices :: "ServiceConfig list"
  ConfigEnv :: "string list"
  ConfigGroups :: "GroupDef list"
  ConfigServices :: "ServiceConfig list"
  ServiceMap :: "string \<rightharpoonup> ServiceConfig"
  GroupMap :: "string \<rightharpoonup> ServiceGroupConfig"
  FilePath :: string

text \<open>
  What \<open>initMaps\<close> takes from outside the config package, as parameters: three functions
  of \<open>path/filepath\<close>, the method \<open>MatchesPlatform\<close> of a service, and the order in
  which \<open>range\<close> yields the keys of the orphan map (given the keys in insertion order).
\<close>

record Platform =
  filepathAbs :: "string \<Rightarrow> err + string"
  filepathIsAbs :: "string \<Rightarrow> bool"
  filepathJoin :: "string \<Rightarrow> string \<Rightarrow> string"
  MatchesPlatform :: "ServiceConfig \<Rightarrow> bool"
  rangeKeys :: "string list \<Rightarrow> string list"

text \<open>The errors of \<open>initMaps\<close> and their messages.\<close>

datatype config_error =
  AbsError err
| DuplicateError "string list"
| GroupCycleError string
| NotFoundError "string list"

fun Error :: "config_error \<Rightarrow> string" where
  "Error (AbsError m) = m"
| "Error (DuplicateError i) = ''Duplicate name or alias: '' @ joinStrings i '', ''"
| "Error (GroupCycleError g) = ''group cycle: '' @ g"
| "Error (NotFoundError keys) =
     ''A service or group could not be found for the following names: '' @ joinStrings keys '', ''"

definition combinePath :: "Platform \<Rightarrow> Config \<Rightarrow> string \<Rightarrow> string" where
  "combinePath env c path =
     (if filepathIsAbs env path \<or> (case path of [] \<Rightarrow> False | ch # rest \<Rightarrow> ch = CHR ''$'')
      then path
      else filepathJoin env (workingDir c) path)"

definition addToMap :: "string set \<Rightarrow> string list \<Rightarrow> string set" where
  "addToMap m vs = fold insert vs m"

definition intersect :: "string set \<Rightarrow> string list \<Rightarrow> string list" where
  "intersect m vs = sort (filter (\<lambda>v. v \<in> m) vs)"

text \<open>The copy \<open>sc\<close> of a service that the first loop builds (lines 324 to 326).\<close>

definition prepare :: "Config \<Rightarrow> string \<Rightarrow> ServiceConfig \<Rightarrow> ServiceConfig" where
  "prepare c absPath s = s\<lparr>Env := Env s @ ConfigEnv c, ConfigFile := absPath\<rparr>"

text \<open>
  The loop over the services (lines 323 to 339). Its state is \<open>svcs\<close>,
  \<open>servicesSkipped\<close> and \<open>namesInUse\<close>.
\<close>

fun serviceLoop ::
  "Platform \<Rightarrow> Config \<Rightarrow> ServiceConfig list
     \<Rightarrow> (string \<rightharpoonup> ServiceConfig) \<times> string set \<times> string set
     \<Rightarrow> config_error + (string \<rightharpoonup> ServiceConfig) \<times> string set \<times> string set" where
  "serviceLoop env c [] st = Inr st"
| "serviceLoop env c (s # rest) (svcs, servicesSkipped, namesInUse) =
     (case filepathAbs env (FilePath c) of
        Inl e \<Rightarrow> Inl (AbsError e)
      | Inr absPath \<Rightarrow>
          (let sc = prepare c absPath s
           in if MatchesPlatform env sc
              then (let i = intersect namesInUse (Aliases sc @ [Name sc])
                    in if length i > 0 then Inl (DuplicateError i)
                       else serviceLoop env c rest
                              (svcs(Name sc \<mapsto> sc), servicesSkipped,
                               addToMap namesInUse (Aliases sc @ [Name sc])))
              else serviceLoop env c rest
                     (svcs, insert (Name sc) servicesSkipped, namesInUse)))"

text \<open>
  The orphan map is a set of names; it is kept as a list without repetition so that
  its keys can be enumerated.
\<close>

definition addOrphan :: "string \<Rightarrow> string list \<Rightarrow> string list" where
  "addOrphan name orphanNames = (if name \<in> set orphanNames then orphanNames else orphanNames @ [name])"

text \<open>
  The inner loop of the first pass (lines 347 to 356), for the children of one group.
  Its state is \<open>svcs\<close> (the path of a child service is rewritten through the
  reference), \<open>childServices\<close> and \<open>orphanNames\<close>.
\<close>

fun serviceChildren ::
  "Platform \<Rightarrow> Config \<Rightarrow> string set \<Rightarrow> string list
     \<Rightarrow> (string \<rightharpoonup> ServiceConfig) \<times> string list \<times> string list
     \<Rightarrow> (string \<rightharpoonup> ServiceConfig) \<times> string list \<times> string list" where
  "serviceChildren env c servicesSkipped [] st = st"
| "serviceChildren env c servicesSkipped (name # rest) (svcs, childServices, orphanNames) =
     (case svcs name of
        Some s \<Rightarrow>
          serviceChildren env c servicesSkipped rest
            (svcs(name \<mapsto> (case Path s of
                               None \<Rightarrow> s
                             | Some p \<Rightarrow> s\<lparr>Path := Some (combinePath env c p)\<rparr>)),
             childServices @ [name], orphanNames)
      | None \<Rightarrow>
          if name \<notin> servicesSkipped
          then serviceChildren env c servicesSkipped rest
                 (svcs, childServices, addOrphan name orphanNames)
          else serviceChildren env c servicesSkipped rest (svcs, childServices, orphanNames))"

text \<open>The first pass over the groups (lines 344 to 372).\<close>

fun firstPass ::
  "Platform \<Rightarrow> Config \<Rightarrow> string set \<Rightarrow> GroupDef list
     \<Rightarrow> (string \<rightharpoonup> ServiceConfig) \<times> (string \<rightharpoonup> ServiceGroupConfig) \<times> string list \<times> string set
     \<Rightarrow> config_error
         + (string \<rightharpoonup> ServiceConfig) \<times> (string \<rightharpoonup> ServiceGroupConfig) \<times> string list \<times> string set" where
  "firstPass env c servicesSkipped [] st = Inr st"
| "firstPass env c servicesSkipped (g # rest) (svcs, groups, orphanNames, namesInUse) =
     (case serviceChildren env c servicesSkipped (Children g) (svcs, [], orphanNames) of
        (svcs', childServices, orphanNames') \<Rightarrow>
          (let i = intersect namesInUse (GroupAliases g @ [GroupName g])
           in if length i > 0 then Inl (DuplicateError i)
              else firstPass env c servicesSkipped rest
                     (svcs',
                      groups(GroupName g \<mapsto>
                        \<lparr>GroupConfigName = GroupName g,
                         GroupConfigAliases = GroupAliases g,
                         GroupConfigDescription = GroupDescription g,
                         Services = childServices,
                         Groups = [],
                         GroupConfigEnv = GroupEnv g,
                         ChildOrder = Children g\<rparr>),
                      orphanNames',
                      addToMap namesInUse (GroupAliases g @ [GroupName g]))))"

text \<open>
  \<open>hasChildCycle\<close> (lines 403 to 413) walks the references of the store and need not
  return when the store holds a cycle that avoids \<open>parent\<close>. The first argument bounds
  the depth of the recursion; \<open>None\<close> is the walk that did not return within it. A
  reference always points into the store.
\<close>

fun hasChildCycle ::
  "nat \<Rightarrow> (string \<rightharpoonup> ServiceGroupConfig) \<Rightarrow> string \<Rightarrow> string list \<Rightarrow> bool option" where
  "hasChildCycle 0 groups parent children = None"
| "hasChildCycle (Suc n) groups parent [] = Some False"
| "hasChildCycle (Suc n) groups parent (sg # rest) =
     (if parent = sg then Some True
      else (case groups sg of
              None \<Rightarrow> None
            | Some g \<Rightarrow>
                (case hasChildCycle n groups parent (Groups g) of
                   None \<Rightarrow> None
                 | Some True \<Rightarrow> Some True
                 | Some False \<Rightarrow> hasChildCycle (Suc n) groups parent rest)))"

text \<open>
  The inner loop of the second pass (lines 378 to 386), for the children of the group
  stored under \<open>gname\<close>. Its state is \<open>orphanNames\<close> and \<open>childGroups\<close>.
\<close>

fun groupChildren ::
  "nat \<Rightarrow> (string \<rightharpoonup> ServiceGroupConfig) \<Rightarrow> string \<Rightarrow> string list
     \<Rightarrow> string list \<times> string list
     \<Rightarrow> (config_error + string list \<times> string list) option" where
  "groupChildren fuel groups gname [] st = Some (Inr st)"
| "groupChildren fuel groups gname (name # rest) (orphanNames, childGroups) =
     (case (case groups name of
              Some gr \<Rightarrow> (removeAll name orphanNames, childGroups @ [name])
            | None \<Rightarrow> (orphanNames, childGroups)) of
        (orphanNames', childGroups') \<Rightarrow>
          (case hasChildCycle fuel groups gname childGroups' of
             None \<Rightarrow> None
           | Some True \<Rightarrow> Some (Inl (GroupCycleError gname))
           | Some False \<Rightarrow> groupChildren fuel groups gname rest (orphanNames', childGroups')))"

text \<open>
  The second pass (lines 375 to 388). \<open>groups[g.Name]\<close> was stored by the first pass,
  and line 387 writes the child groups through it.
\<close>

fun secondPass ::
  "nat \<Rightarrow> GroupDef list
     \<Rightarrow> (string \<rightharpoonup> ServiceGroupConfig) \<times> string list
     \<Rightarrow> (config_error + (string \<rightharpoonup> ServiceGroupConfig) \<times> string list) option" where
  "secondPass fuel [] st = Some (Inr st)"
| "secondPass fuel (g # rest) (groups, orphanNames) =
     (case groupChildren fuel groups (GroupName g) (Children g) (orphanNames, []) of
        None \<Rightarrow> None
      | Some (Inl e) \<Rightarrow> Some (Inl e)
      | Some (Inr (orphanNames', childGroups)) \<Rightarrow>
          secondPass fuel rest
            ((case groups (GroupName g) of
                None \<Rightarrow> groups
              | Some gr \<Rightarrow> groups(GroupName g \<mapsto> gr\<lparr>Groups := childGroups\<rparr>)),
             orphanNames'))"

text \<open>
  \<open>initMaps\<close> (lines 316 to 401). It returns its error and the config, which is
  changed only by the two assignments at the end.
\<close>

definition initMaps :: "nat \<Rightarrow> Platform \<Rightarrow> Config \<Rightarrow> (config_error option \<times> Config) option" where
  "initMaps fuel env c =
     (case serviceLoop env c (ConfigServices c @ ImportedServices c) (Map.empty, {}, {}) of
        Inl e \<Rightarrow> Some (Some e, c)
      | Inr (svcs, servicesSkipped, namesInUse) \<Rightarrow>
          (case firstPass env c servicesSkipped (ConfigGroups c @ ImportedGroups c)
                  (svcs, Map.empty, [], namesInUse) of
             Inl e \<Rightarrow> Some (Some e, c)
           | Inr (svcs', groups, orphanNames, namesInUse') \<Rightarrow>
               (case secondPass fuel (ConfigGroups c @ ImportedGroups c) (groups, orphanNames) of
                  None \<Rightarrow> None
                | Some (Inl e) \<Rightarrow> Some (Some e, c)
                | Some (Inr (groups', orphanNames')) \<Rightarrow>
                    if length orphanNames' > 0
                    then Some (Some (NotFoundError (rangeKeys env orphanNames')), c)
                    else Some (None, c\<lparr>ServiceMap := svcs', GroupMap := groups'\<rparr>))))"

section \<open>Notions for stating the properties of the resolver\<close>

text \<open>
  The identifiers of a definition in the order \<open>initMaps\<close> checks them, the definitions
  in the order it processes them (services that match the platform, then groups), and
  the identifiers of a list of definitions.
\<close>

definition serviceIds :: "ServiceConfig \<Rightarrow> string list" where
  "serviceIds sc = Aliases sc @ [Name sc]"

definition groupIds :: "GroupDef \<Rightarrow> string list" where
  "groupIds g = GroupAliases g @ [GroupName g]"

definition allServices :: "Config \<Rightarrow> ServiceConfig list" where
  "allServices c = ConfigServices c @ ImportedServices c"

definition allGroups :: "Config \<Rightarrow> GroupDef list" where
  "allGroups c = ConfigGroups c @ ImportedGroups c"

definition matching :: "Platform \<Rightarrow> Config \<Rightarrow> string \<Rightarrow> ServiceConfig list \<Rightarrow> ServiceConfig list" where
  "matching env c absPath ss = filter (MatchesPlatform env) (map (prepare c absPath) ss)"

definition identifierLists :: "Platform \<Rightarrow> Config \<Rightarrow> string \<Rightarrow> string list list" where
  "identifierLists env c absPath =
     map serviceIds (matching env c absPath (allServices c)) @ map groupIds (allGroups c)"

definition inUse :: "string list list \<Rightarrow> string set" where
  "inUse idss = set (concat idss)"

fun collisionFree :: "string set \<Rightarrow> string list list \<Rightarrow> bool" where
  "collisionFree used [] = True"
| "collisionFree used (ids # rest) =
     ((\<forall>v \<in> set ids. v \<notin> used) \<and> collisionFree (used \<union> set ids) rest)"

text \<open>What a loop that stops at the first definition with an identifier in use returns.\<close>

definition firstCollision :: "string set \<Rightarrow> string list list \<Rightarrow> string list \<Rightarrow> bool" where
  "firstCollision used idss i =
     (\<exists>pre ids post. idss = pre @ ids # post \<and> collisionFree used pre
        \<and> (\<exists>v \<in> set ids. v \<in> used \<union> inUse pre)
        \<and> i = intersect (used \<union> inUse pre) ids)"

definition erasePath :: "ServiceConfig \<Rightarrow> ServiceConfig" where
  "erasePath s = s\<lparr>Path := None\<rparr>"

definition unresolvedNames :: "Platform \<Rightarrow> Config \<Rightarrow> string \<Rightarrow> string list" where
  "unresolvedNames env c p =
     filter (\<lambda>n. n \<notin> Name ` set (matching env c p (allServices c))
                \<and> n \<notin> Name ` {s \<in> set (allServices c). \<not> MatchesPlatform env (prepare c p s)}
                \<and> n \<notin> GroupName ` set (allGroups c))
       (concat (map Children (allGroups c)))"

definition envKey :: "string \<Rightarrow> string" where
  "envKey entry = takeWhile (\<lambda>ch. ch \<noteq> CHR ''='') entry"

text \<open>The service a successful resolution stores under a name.\<close>

definition resolvedService :: "(config_error option \<times> Config) option \<Rightarrow> string \<Rightarrow> ServiceConfig option" where
  "resolvedService res n = (case res of Some (None, c') \<Rightarrow> ServiceMap c' n | _ \<Rightarrow> None)"

text \<open>
  The references between the groups of the store, as a relation; a store whose
  references all point into it; whether one of the groups \<open>cs\<close> is, or leads through the
  references to, the group \<open>p\<close>; the references the second pass will write for the
  groups \<open>gs\<close>; and the containment relation of the declared groups: a group contains
  each of its children that is the name of a group.
\<close>

definition storeEdges :: "(string \<rightharpoonup> ServiceGroupConfig) \<Rightarrow> (string \<times> string) set" where
  "storeEdges groups = {(a, b). \<exists>g. groups a = Some g \<and> b \<in> set (Groups g)}"

definition closedStore :: "(string \<rightharpoonup> ServiceGroupConfig) \<Rightarrow> bool" where
  "closedStore groups = (\<forall>a g. groups a = Some g \<longrightarrow> set (Groups g) \<subseteq> dom groups)"

definition reaches :: "(string \<rightharpoonup> ServiceGroupConfig) \<Rightarrow> string list \<Rightarrow> string \<Rightarrow> bool" where
  "reaches groups cs p = (\<exists>c \<in> set cs. (c, p) \<in> (storeEdges groups)\<^sup>*)"

definition newEdges :: "(string \<rightharpoonup> ServiceGroupConfig) \<Rightarrow> GroupDef list \<Rightarrow> (string \<times> string) set" where
  "newEdges groups gs =
     {(a, b). \<exists>g \<in> set gs. a = GroupName g \<and> b \<in> set (Children g) \<and> b \<in> dom groups}"

definition groupEdges :: "Config \<Rightarrow> (string \<times> string) set" where
  "groupEdges c =
     {(a, b). \<exists>g \<in> set (allGroups c). a = GroupName g \<and> b \<in> set (Children g)
                \<and> b \<in> GroupName ` set (allGroups c)}"

section \<open>Concrete helpers for the examples\<close>

text \<open>
  A small world for evaluating the operations: the persisted pid of each service and
  the list of backend stop actions that ran.
\<close>

record TestWorld =
  pids :: "(string \<times> int) list"
  stops :: "string list"
  cleared :: "string list"

definition svcName :: "Instance \<Rightarrow> string" where
  "svcName i = (case Service i of None \<Rightarrow> [] | Some s \<Rightarrow> Name s)"

definition testService :: "string \<Rightarrow> ServiceConfig" where
  "testService n =
     \<lparr>Name = n, Description = [], Aliases = [], Path = None, RequiresSudo = False,
      Env = [], ConfigFile = []\<rparr>"

definition testCfg :: OperationConfig where
  "testCfg =
     \<lparr>WorkingDir = [], EdwardExecutable = [], Exclusions = [], SkipBuild = False,
      NoWatch = False, Tags = [], LogFile = []\<rparr>"

definition testLoad :: "ServiceConfig \<Rightarrow> ContextOverride \<Rightarrow> TestWorld \<Rightarrow> (err + Instance) \<times> TestWorld" where
  "testLoad s ov w =
     (Inr \<lparr>Service = Some s,
           Pid = (case map_of (pids w) (Name s) of None \<Rightarrow> 0 | Some p \<Rightarrow> p),
           InstanceConfigFile = ConfigFile s, Overrides = ov\<rparr>, w)"

definition testOps :: "TestWorld Ops" where
  "testOps =
     \<lparr>IsExcluded = (\<lambda>cfg s. Name s \<in> set (Exclusions cfg)),
      HasLaunchStep = (\<lambda>s. True),
      HasBuildStep = (\<lambda>s. True),
      GetName = Name,
      Load = testLoad,
      clearState = (\<lambda>i w. w\<lparr>pids := filter (\<lambda>p. fst p \<noteq> svcName i) (pids w),
                              cleared := cleared w @ [svcName i]\<rparr>),
      DeleteAllStatusesForService = (\<lambda>s w. (None, w)),
      removeRunLog = (\<lambda>s w. w),
      getLaunchCommand = (\<lambda>i cfg w. Inr \<lparr>CmdArgs = [svcName i], CmdEnv = []\<rparr>),
      osEnviron = (\<lambda>w. []),
      cmdStart = (\<lambda>cmd w. (Inr 42, w)),
      save = (\<lambda>i w. (None, w\<lparr>pids := (svcName i, Pid i) # pids w\<rparr>)),
      WaitUntilRunning = (\<lambda>cmd s w. (Some ''timed out'', w)),
      logToStringSlice = (\<lambda>s w. Inr [''line 1'']),
      warmupRun = (\<lambda>s t st. st),
      backendStop = (\<lambda>i w. (None, w\<lparr>stops := stops w @ [svcName i]\<rparr>))\<rparr>"

definition testInstance :: "string \<Rightarrow> int \<Rightarrow> Instance" where
  "testInstance n p =
     \<lparr>Service = Some (testService n), Pid = p, InstanceConfigFile = [],
      Overrides = \<lparr>OverrideEnv = []\<rparr>\<rparr>"

definition testWorld :: TestWorld where
  "testWorld = \<lparr>pids = [], stops = [], cleared = []\<rparr>"

definition testSystem :: "TestWorld System" where
  "testSystem = \<lparr>tracker = Map.empty, world = testWorld\<rparr>"

definition emptyPool :: Pool where
  "emptyPool = \<lparr>stopped = False, queue = []\<rparr>"

definition brokenStateFiles :: "unit StateFiles" where
  "brokenStateFiles =
     \<lparr>ReadDir = (\<lambda>d w. Inr [\<lparr>FileName = ''a'', IsDir = False\<rparr>]),
      ReadFile = (\<lambda>p w. Inr ''{''),
      pathJoin = (\<lambda>a b. a @ ''/'' @ b),
      jsonUnmarshal = (\<lambda>raw i. if raw = ''{'' then (Some ''unexpected end of JSON input'', i)
                                 else (None, i\<lparr>Service := Some (testService raw)\<rparr>))\<rparr>"








definition testPlatform :: Platform where
  "testPlatform =
     \<lparr>filepathAbs = (\<lambda>p. Inr (''/work/'' @ p)),
      filepathIsAbs = (\<lambda>p. case p of [] \<Rightarrow> False | ch # rest \<Rightarrow> ch = CHR ''/''),
      filepathJoin = (\<lambda>a b. a @ ''/'' @ b),
      MatchesPlatform = (\<lambda>s. Description s \<noteq> ''other platform''),
      rangeKeys = (\<lambda>ks. ks)\<rparr>"

definition testGroup :: "string \<Rightarrow> string list \<Rightarrow> GroupDef" where
  "testGroup n cs =
     \<lparr>GroupName = n, GroupAliases = [], GroupDescription = [], Children = cs, GroupEnv = []\<rparr>"

definition testConfig :: "ServiceConfig list \<Rightarrow> GroupDef list \<Rightarrow> Config" where
  "testConfig ss gs =
     \<lparr>workingDir = ''/work'', TelemetryScript = [], MinEdwardVersion = [], Imports = [],
      ImportedGroups = [], ImportedServices = [], ConfigEnv = [], ConfigGroups = gs,
      ConfigServices = ss, ServiceMap = Map.empty, GroupMap = Map.empty,
      FilePath = ''edward.json''\<rparr>"

definition exampleConfig :: Config where
  "exampleConfig =
     testConfig [(testService ''svc-a'')\<lparr>Aliases := [''svc-a2'']\<rparr>, testService ''svc-b'',
                 testService ''svc-a2'']
                [testGroup ''g1'' [''svc-a'', ''svc-b'']]"

definition repeatedConfig :: Config where
  "repeatedConfig =
     testConfig [testService ''a'', testService ''b'', testService ''a'', testService ''b''] []"

definition variantsConfig :: Config where
  "variantsConfig =
     testConfig [testService ''a'', (testService ''a'')\<lparr>Description := ''other platform''\<rparr>] []"

definition envService :: ServiceConfig where
  "envService = (testService ''a'')\<lparr>Env := [''A=1'']\<rparr>"

definition envConfig :: Config where
  "envConfig = (testConfig [envService] [])\<lparr>ConfigEnv := [''A=2'']\<rparr>"

definition orphanConfig :: Config where
  "orphanConfig = testConfig [] [testGroup ''a'' [''b'', ''c'', ''d''], testGroup ''b'' []]"

definition skipConfig :: Config where
  "skipConfig =
     testConfig [(testService ''x'')\<lparr>Description := ''other platform''\<rparr>] [testGroup ''g'' [''x'']]"

definition cycleConfig :: Config where
  "cycleConfig = testConfig [] [testGroup ''a'' [''b''], testGroup ''b'' [''a'']]"

section \<open>Stopping an instance that is not running\<close>

text \<open>
  C6. When the loaded instance has pid 0, \<open>Stop\<close> returns no error, leaves the pool as
  it was (nothing is enqueued, so no backend stop action can run) and leaves the task
  tree as it was; the world is the one \<open>Load\<close> left, with \<open>clearState\<close> applied to it.
\<close>

theorem Stop_not_running:
  assumes "Load ops c overrides (world st) = (Inr inst, w)"
    and "Pid inst = 0"
  shows "Stop ops c cfg overrides task pool st
           = (None, pool, \<lparr>tracker = tracker st, world = clearState ops inst w\<rparr>)"
  using assms by (simp add: Stop_def)

theorem Stop_not_running_witness:
  "Load testOps (testService ''a'') \<lparr>OverrideEnv = []\<rparr> (world testSystem)
       = (Inr \<lparr>Service = Some (testService ''a''), Pid = 0, InstanceConfigFile = [],
               Overrides = \<lparr>OverrideEnv = []\<rparr>\<rparr>, testWorld)
   \<and> Stop testOps (testService ''a'') testCfg \<lparr>OverrideEnv = []\<rparr> [] emptyPool testSystem
       = (None, emptyPool,
          \<lparr>tracker = Map.empty, world = \<lparr>pids = [], stops = [], cleared = [''a'']\<rparr>\<rparr>)"
proof -
  have l: "Load testOps (testService ''a'') \<lparr>OverrideEnv = []\<rparr> (world testSystem)
       = (Inr \<lparr>Service = Some (testService ''a''), Pid = 0, InstanceConfigFile = [],
               Overrides = \<lparr>OverrideEnv = []\<rparr>\<rparr>, testWorld)"
    by (simp add: testOps_def testLoad_def testSystem_def testWorld_def testService_def)
  have p: "Pid \<lparr>Service = Some (testService ''a''), Pid = 0, InstanceConfigFile = [],
               Overrides = \<lparr>OverrideEnv = []\<rparr>\<rparr> = 0"
    by simp
  show ?thesis
    using l Stop_not_running [OF l p, of testCfg "[]" emptyPool]
    by (simp add: testOps_def testSystem_def testWorld_def svcName_def testService_def)
qed

section \<open>The task tree under Child and SetState\<close>

lemma createIfAbsent_other: "p \<noteq> q \<Longrightarrow> createIfAbsent q tr p = tr p"
  by (simp add: createIfAbsent_def split: option.splits)

lemma outputAt_createIfAbsent: "outputAt (createIfAbsent q tr) p = outputAt tr p"
  by (simp add: createIfAbsent_def outputAt_def split: option.splits)

lemma SetState_other: "p \<noteq> t \<Longrightarrow> SetState t s msgs tr p = tr p"
  by (simp add: SetState_def split: option.splits)

lemma outputAt_SetState_other: "p \<noteq> t \<Longrightarrow> outputAt (SetState t s msgs tr) p = outputAt tr p"
  by (simp add: outputAt_def SetState_other)

lemma SetState_self:
  "SetState t s msgs tr t = Some \<lparr>State = s, Output = outputAt tr t @ msgs\<rparr>"
  by (simp add: SetState_def outputAt_def split: option.splits)

lemma outputAt_SetState_self: "outputAt (SetState t s msgs tr) t = outputAt tr t @ msgs"
  by (simp add: outputAt_def SetState_self)

section \<open>Starting an instance that is already running\<close>

text \<open>
  C5, as the claim states it, fails: for an excluded service with a nonzero pid,
  \<open>StartAsync\<close> returns nil at its first guard and the Start task is never created, so
  it is not set to Warning.
\<close>

theorem StartAsync_excluded_counterexample:
  "Pid (testInstance ''a'' 7) \<noteq> 0
   \<and> StartAsync testOps (testCfg\<lparr>Exclusions := [''a'']\<rparr>) [] (testInstance ''a'' 7) testSystem
       = Return (None, testInstance ''a'' 7, testSystem)
   \<and> tracker testSystem [''a'', ''Start''] = None"
  by (simp add: StartAsync_def testOps_def testCfg_def testService_def testSystem_def testInstance_def)

text \<open>
  C5, amended. For an instance with a nonzero pid whose service is not excluded and
  whose backend has a launch step, \<open>StartAsync\<close> returns nil, the instance and the world
  are unchanged (nothing is saved, deleted or launched), and the Start task is in state
  Warning with the line "Already running" appended to its output.
\<close>

theorem StartAsync_already_running:
  assumes "Service c = Some svc" and "\<not> IsExcluded ops cfg svc" and "HasLaunchStep ops svc"
    and "Pid c \<noteq> 0"
  shows "\<exists>tr'. StartAsync ops cfg task c st = Return (None, c, st\<lparr>tracker := tr'\<rparr>)
           \<and> tr' (startPath ops task svc)
               = Some \<lparr>State = TaskStateWarning,
                       Output = outputAt (tracker st) (startPath ops task svc) @ [''Already running'']\<rparr>"
proof -
  define tr' where "tr' = SetState (startPath ops task svc) TaskStateWarning [''Already running'']
      (SetState (startPath ops task svc) TaskStateInProgress []
        (createIfAbsent (startPath ops task svc)
          (createIfAbsent (task @ [GetName ops svc]) (tracker st))))"
  have "StartAsync ops cfg task c st = Return (None, c, st\<lparr>tracker := tr'\<rparr>)"
    using assms by (simp add: StartAsync_def startPath_def Child_def tr'_def)
  moreover have "tr' (startPath ops task svc)
      = Some \<lparr>State = TaskStateWarning,
              Output = outputAt (tracker st) (startPath ops task svc) @ [''Already running'']\<rparr>"
    by (simp add: tr'_def SetState_self outputAt_SetState_self outputAt_createIfAbsent)
  ultimately show ?thesis by blast
qed

theorem StartAsync_already_running_witness:
  "Service (testInstance ''a'' 7) = Some (testService ''a'')
   \<and> \<not> IsExcluded testOps testCfg (testService ''a'')
   \<and> HasLaunchStep testOps (testService ''a'')
   \<and> Pid (testInstance ''a'' 7) \<noteq> 0
   \<and> (\<exists>tr'. StartAsync testOps testCfg [] (testInstance ''a'' 7) testSystem
               = Return (None, testInstance ''a'' 7, testSystem\<lparr>tracker := tr'\<rparr>)
           \<and> tr' [''a'', ''Start'']
               = Some \<lparr>State = TaskStateWarning, Output = [''Already running'']\<rparr>)"
proof -
  have h1: "Service (testInstance ''a'' 7) = Some (testService ''a'')"
    by (simp add: testInstance_def)
  have h2: "\<not> IsExcluded testOps testCfg (testService ''a'')"
    by (simp add: testOps_def testCfg_def)
  have h3: "HasLaunchStep testOps (testService ''a'')"
    by (simp add: testOps_def)
  have h4: "Pid (testInstance ''a'' 7) \<noteq> 0"
    by (simp add: testInstance_def)
  have n: "GetName testOps (testService ''a'') = ''a''"
    by (simp add: testOps_def testService_def)
  show ?thesis
    using h1 h2 h3 h4 StartAsync_already_running [OF h1 h2 h3 h4, of "[]" testSystem]
    by (simp add: startPath_def outputAt_def n testSystem_def)
qed

section \<open>A start whose readiness probe times out\<close>

lemma StopSync_running:
  assumes "Service c = Some svc" and "Pid c \<noteq> 0" and "backendStop ops c (world st) = (stopErr, w1)"
  shows "\<exists>tr'. StopSync ops cfg ov task c st
           = Return (stopErr, c\<lparr>Pid := (case stopErr of None \<Rightarrow> 0 | Some se \<Rightarrow> Pid c)\<rparr>,
                     \<lparr>tracker = tr',
                      world = (case stopErr of None \<Rightarrow> clearState ops c w1 | Some se \<Rightarrow> w1)\<rparr>)
         \<and> (\<forall>p. p \<noteq> task @ [GetName ops svc] \<and> p \<noteq> task @ [GetName ops svc, ''Stop'']
                \<longrightarrow> tr' p = tracker st p)"
  using assms
  by (cases stopErr) (simp_all add: StopSync_def Child_def SetState_other createIfAbsent_other)

lemma StartAsync_failed_result:
  assumes "Service c = Some svc" and "Pid c \<noteq> 0" and "backendStop ops c (world st) = (stopErr, w1)"
  shows "\<exists>tr'. StartAsync_failed ops cfg task c svc (startPath ops task svc) e st
             = Return (case stopErr of None \<Rightarrow> Some e | Some se \<Rightarrow> Some se,
                       c\<lparr>Pid := (case stopErr of None \<Rightarrow> 0 | Some se \<Rightarrow> Pid c)\<rparr>,
                       \<lparr>tracker = tr',
                        world = (case stopErr of None \<Rightarrow> clearState ops c w1 | Some se \<Rightarrow> w1)\<rparr>)
           \<and> tr' (startPath ops task svc)
               = Some \<lparr>State = TaskStateFailed,
                       Output = outputAt (tracker st) (startPath ops task svc)
                                @ (case logToStringSlice ops svc (world st) of
                                     Inl readingErr \<Rightarrow> [''Could not read log'', readingErr, ''Original error: '' @ e]
                                   | Inr lg \<Rightarrow> lg @ [e])\<rparr>"
proof -
  define tr1 where "tr1 = (case logToStringSlice ops svc (world st) of
               Inl readingErr \<Rightarrow>
                 SetState (startPath ops task svc) TaskStateFailed
                   [''Could not read log'', readingErr, ''Original error: '' @ e] (tracker st)
             | Inr lg \<Rightarrow> SetState (startPath ops task svc) TaskStateFailed (lg @ [e]) (tracker st))"
  define tr2 where "tr2 = createIfAbsent (task @ [''Cleanup'']) tr1"
  have look: "tr2 (startPath ops task svc) = Some \<lparr>State = TaskStateFailed,
                       Output = outputAt (tracker st) (startPath ops task svc)
                                @ (case logToStringSlice ops svc (world st) of
                                     Inl readingErr \<Rightarrow> [''Could not read log'', readingErr, ''Original error: '' @ e]
                                   | Inr lg \<Rightarrow> lg @ [e])\<rparr>"
    by (simp add: tr2_def tr1_def createIfAbsent_other startPath_def SetState_self split: sum.splits)
  have w: "backendStop ops c (world (st\<lparr>tracker := tr2\<rparr>)) = (stopErr, w1)"
    using assms(3) by simp
  obtain tr' where s: "StopSync ops cfg (Overrides c) (task @ [''Cleanup'']) c (st\<lparr>tracker := tr2\<rparr>)
           = Return (stopErr, c\<lparr>Pid := (case stopErr of None \<Rightarrow> 0 | Some se \<Rightarrow> Pid c)\<rparr>,
                     \<lparr>tracker = tr',
                      world = (case stopErr of None \<Rightarrow> clearState ops c w1 | Some se \<Rightarrow> w1)\<rparr>)"
    and fr: "\<forall>p. p \<noteq> (task @ [''Cleanup'']) @ [GetName ops svc] \<and> p \<noteq> (task @ [''Cleanup'']) @ [GetName ops svc, ''Stop'']
                \<longrightarrow> tr' p = tracker (st\<lparr>tracker := tr2\<rparr>) p"
    using StopSync_running [OF assms(1) assms(2) w] by blast
  have "tr' (startPath ops task svc) = tr2 (startPath ops task svc)"
    using fr by (simp add: startPath_def)
  with look s show ?thesis
    by (cases stopErr) (simp_all add: StartAsync_failed_def Child_def tr2_def tr1_def)
qed

text \<open>
  C4. The start reaches the readiness wait (service not excluded, launch step present,
  pid 0, statuses cleared, command built and started with a nonzero pid, pid saved) and
  \<open>WaitUntilRunning\<close> returns the error \<open>e\<close>. Then the Start task is Failed, its output
  extended by the log read back and \<open>e\<close> (or by the three lines of the unreadable-log
  case); the cleanup \<open>StopSync\<close> has run before \<open>StartAsync\<close> returns, since the
  world returned is the one its stop action left; when that stop succeeds the caller
  gets \<open>e\<close> and the instance has pid 0, and when it fails the caller gets the stop's
  error.
\<close>

theorem StartAsync_probe_timeout:
  assumes "Service c = Some svc" and "\<not> IsExcluded ops cfg svc" and "HasLaunchStep ops svc"
    and "Pid c = 0"
    and "DeleteAllStatusesForService ops svc (world st) = (None, w1)"
    and "getLaunchCommand ops c cfg (removeRunLog ops svc w1) = Inr cmd0"
    and "cmd = cmd0\<lparr>CmdEnv := (osEnviron ops (removeRunLog ops svc w1) @ OverrideEnv (Overrides c)) @ Env svc\<rparr>"
    and "cmdStart ops cmd (removeRunLog ops svc w1) = (Inr pid, w3)" and "pid \<noteq> 0"
    and "save ops (c\<lparr>Pid := pid\<rparr>) w3 = (None, w4)"
    and "WaitUntilRunning ops cmd svc w4 = (Some e, w5)"
    and "backendStop ops (c\<lparr>Pid := pid\<rparr>) w5 = (stopErr, w6)"
  shows "\<exists>tr'. StartAsync ops cfg task c st
             = Return (case stopErr of None \<Rightarrow> Some e | Some se \<Rightarrow> Some se,
                       c\<lparr>Pid := (case stopErr of None \<Rightarrow> 0 | Some se \<Rightarrow> pid)\<rparr>,
                       \<lparr>tracker = tr',
                        world = (case stopErr of None \<Rightarrow> clearState ops (c\<lparr>Pid := pid\<rparr>) w6
                                 | Some se \<Rightarrow> w6)\<rparr>)
           \<and> tr' (startPath ops task svc)
               = Some \<lparr>State = TaskStateFailed,
                       Output = outputAt (tracker st) (startPath ops task svc)
                                @ (case logToStringSlice ops svc w5 of
                                     Inl readingErr \<Rightarrow> [''Could not read log'', readingErr, ''Original error: '' @ e]
                                   | Inr lg \<Rightarrow> lg @ [e])\<rparr>"
proof -
  define tr3 where "tr3 = SetState (startPath ops task svc) TaskStateInProgress []
      (createIfAbsent (startPath ops task svc) (createIfAbsent (task @ [GetName ops svc]) (tracker st)))"
  define c1 where "c1 = c\<lparr>Pid := pid\<rparr>"
  define stF :: "'a System" where "stF = \<lparr>tracker = tr3, world = w5\<rparr>"
  have out: "outputAt tr3 (startPath ops task svc) = outputAt (tracker st) (startPath ops task svc)"
    by (simp add: tr3_def outputAt_SetState_self outputAt_createIfAbsent)
  have launch: "StartAsync ops cfg task c st
      = StartAsync_failed ops cfg task c1 svc (startPath ops task svc) e stF"
    using assms
    by (simp add: StartAsync_def StartAsync_launch_def Child_def startPath_def tr3_def c1_def stF_def)
  have a1: "Service c1 = Some svc" using assms(1) by (simp add: c1_def)
  have a2: "Pid c1 \<noteq> 0" using assms(9) by (simp add: c1_def)
  have a3: "backendStop ops c1 (world stF) = (stopErr, w6)"
    using assms(12) by (simp add: c1_def stF_def)
  have p: "Pid c1 = pid" and w: "world stF = w5" and t: "tracker stF = tr3"
    by (simp_all add: c1_def stF_def)
  from StartAsync_failed_result [OF a1 a2 a3, of cfg task e]
  obtain tr' where r: "StartAsync_failed ops cfg task c1 svc (startPath ops task svc) e stF
             = Return (case stopErr of None \<Rightarrow> Some e | Some se \<Rightarrow> Some se,
                       c1\<lparr>Pid := (case stopErr of None \<Rightarrow> 0 | Some se \<Rightarrow> Pid c1)\<rparr>,
                       \<lparr>tracker = tr',
                        world = (case stopErr of None \<Rightarrow> clearState ops c1 w6 | Some se \<Rightarrow> w6)\<rparr>)"
    and l: "tr' (startPath ops task svc)
               = Some \<lparr>State = TaskStateFailed,
                       Output = outputAt (tracker stF) (startPath ops task svc)
                                @ (case logToStringSlice ops svc (world stF) of
                                     Inl readingErr \<Rightarrow> [''Could not read log'', readingErr, ''Original error: '' @ e]
                                   | Inr lg \<Rightarrow> lg @ [e])\<rparr>"
    by blast
  have "c1\<lparr>Pid := (case stopErr of None \<Rightarrow> 0 | Some se \<Rightarrow> Pid c1)\<rparr>
          = c\<lparr>Pid := (case stopErr of None \<Rightarrow> 0 | Some se \<Rightarrow> pid)\<rparr>"
    by (cases stopErr) (simp_all add: c1_def)
  with r l launch show ?thesis
    by (cases stopErr) (simp_all add: p w t out c1_def)
qed


theorem StartAsync_probe_timeout_witness:
  "Pid (testInstance ''a'' 0) = 0
   \<and> WaitUntilRunning testOps \<lparr>CmdArgs = [''a''], CmdEnv = []\<rparr> (testService ''a'')
         \<lparr>pids = [(''a'', 42)], stops = [], cleared = []\<rparr>
       = (Some ''timed out'', \<lparr>pids = [(''a'', 42)], stops = [], cleared = []\<rparr>)
   \<and> (\<exists>tr'. StartAsync testOps testCfg [] (testInstance ''a'' 0) testSystem
               = Return (Some ''timed out'', testInstance ''a'' 0,
                         \<lparr>tracker = tr', world = \<lparr>pids = [], stops = [''a''], cleared = [''a'']\<rparr>\<rparr>)
           \<and> tr' [''a'', ''Start'']
               = Some \<lparr>State = TaskStateFailed, Output = [''line 1'', ''timed out'']\<rparr>)"
proof -
  let ?c = "testInstance ''a'' 0"
  let ?svc = "testService ''a''"
  let ?cmd = "\<lparr>CmdArgs = [''a''], CmdEnv = []\<rparr>"
  let ?w4 = "\<lparr>pids = [(''a'', 42)], stops = [], cleared = []\<rparr>"
  let ?w6 = "\<lparr>pids = [(''a'', 42)], stops = [''a''], cleared = []\<rparr>"
  have h1: "Service ?c = Some ?svc" by (simp add: testInstance_def)
  have h2: "\<not> IsExcluded testOps testCfg ?svc" by (simp add: testOps_def testCfg_def)
  have h3: "HasLaunchStep testOps ?svc" by (simp add: testOps_def)
  have h4: "Pid ?c = 0" by (simp add: testInstance_def)
  have h5: "DeleteAllStatusesForService testOps ?svc (world testSystem) = (None, testWorld)"
    by (simp add: testOps_def testSystem_def)
  have h6: "getLaunchCommand testOps ?c testCfg (removeRunLog testOps ?svc testWorld) = Inr ?cmd"
    by (simp add: testOps_def svcName_def testInstance_def testService_def)
  have h7: "?cmd = ?cmd\<lparr>CmdEnv := (osEnviron testOps (removeRunLog testOps ?svc testWorld)
                                    @ OverrideEnv (Overrides ?c)) @ Env ?svc\<rparr>"
    by (simp add: testOps_def testInstance_def testService_def)
  have h8: "cmdStart testOps ?cmd (removeRunLog testOps ?svc testWorld) = (Inr 42, testWorld)"
    by (simp add: testOps_def)
  have h9: "(42::int) \<noteq> 0" by simp
  have h10: "save testOps (?c\<lparr>Pid := 42\<rparr>) testWorld = (None, ?w4)"
    by (simp add: testOps_def svcName_def testInstance_def testService_def testWorld_def)
  have h11: "WaitUntilRunning testOps ?cmd ?svc ?w4 = (Some ''timed out'', ?w4)"
    by (simp add: testOps_def)
  have h12: "backendStop testOps (?c\<lparr>Pid := 42\<rparr>) ?w4 = (None, ?w6)"
    by (simp add: testOps_def svcName_def testInstance_def testService_def)
  have n: "GetName testOps ?svc = ''a''" by (simp add: testOps_def testService_def)
  have l: "logToStringSlice testOps ?svc ?w4 = Inr [''line 1'']" by (simp add: testOps_def)
  have cl: "clearState testOps (?c\<lparr>Pid := 42\<rparr>) ?w6 = \<lparr>pids = [], stops = [''a''], cleared = [''a'']\<rparr>"
    by (simp add: testOps_def svcName_def testInstance_def testService_def)
  have z: "?c\<lparr>Pid := 0\<rparr> = ?c" by (simp add: testInstance_def)
  show ?thesis
    using h4 h11 StartAsync_probe_timeout [OF h1 h2 h3 h4 h5 h6 h7 h8 h9 h10 h11 h12, of "[]"]
    by (simp add: startPath_def outputAt_def n l cl z testSystem_def)
qed

section \<open>State files that do not decode\<close>

text \<open>
  C10. A state directory holds one regular file whose content is not JSON;
  \<open>json.Unmarshal\<close> returns a syntax error and leaves the zero instance as it was, so
  its service reference is nil. \<open>LoadRunningServices\<close> drops the error and then panics
  at line 30: no entry is appended and nothing is returned.
\<close>

theorem LoadRunningServices_invalid_json:
  "jsonUnmarshal brokenStateFiles ''{'' zeroInstance = (Some ''unexpected end of JSON input'', zeroInstance)
   \<and> LoadRunningServices brokenStateFiles ''state'' () = Panic"
  by (simp add: LoadRunningServices_def brokenStateFiles_def zeroInstance_def)

section \<open>The order of restartAll\<close>


















section \<open>The passes of the resolver\<close>

lemma addToMap_eq: "addToMap m vs = m \<union> set vs"
proof -
  have "fold insert vs m = m \<union> set vs" for m
    by (induction vs arbitrary: m) auto
  then show ?thesis by (simp add: addToMap_def)
qed

lemma sort_Nil_iff: "(sort xs = []) = (xs = [])"
  by (metis length_sort length_0_conv)

lemma intersect_empty: "(intersect m vs = []) = (\<forall>v \<in> set vs. v \<notin> m)"
  by (auto simp: intersect_def sort_Nil_iff filter_empty_conv)

lemma sorted_intersect: "sorted (intersect m vs)"
  by (simp add: intersect_def)

lemma collisionFree_append:
  "collisionFree used (xs @ ys) = (collisionFree used xs \<and> collisionFree (used \<union> inUse xs) ys)"
  by (induction xs arbitrary: used) (auto simp: inUse_def Un_assoc)

lemma firstCollision_here:
  "\<exists>v \<in> set ids. v \<in> used \<Longrightarrow> firstCollision used (ids # rest) (intersect used ids)"
  unfolding firstCollision_def
  by (rule exI [of _ "[]"]) (simp add: inUse_def)

lemma firstCollision_later:
  assumes "\<forall>v \<in> set ids. v \<notin> used" and "firstCollision (used \<union> set ids) rest i"
  shows "firstCollision used (ids # rest) i"
proof -
  from assms(2) obtain pre ids' post where r: "rest = pre @ ids' # post"
    and f: "collisionFree (used \<union> set ids) pre"
    and v: "\<exists>v \<in> set ids'. v \<in> (used \<union> set ids) \<union> inUse pre"
    and i: "i = intersect ((used \<union> set ids) \<union> inUse pre) ids'"
    unfolding firstCollision_def by blast
  have u: "(used \<union> set ids) \<union> inUse pre = used \<union> inUse (ids # pre)"
    by (auto simp: inUse_def)
  show ?thesis
    unfolding firstCollision_def
    apply (rule exI [of _ "ids # pre"], rule exI [of _ ids'], rule exI [of _ post])
    using r f v i assms(1) u by simp
qed

lemma firstCollision_not_free: "firstCollision used idss i \<Longrightarrow> \<not> collisionFree used idss"
  by (auto simp: firstCollision_def collisionFree_append)

lemma prepare_simps [simp]:
  "Name (prepare c p s) = Name s" "Aliases (prepare c p s) = Aliases s"
  "Env (prepare c p s) = Env s @ ConfigEnv c" "Path (prepare c p s) = Path s"
  by (simp_all add: prepare_def)

lemma serviceLoop_result:
  assumes "filepathAbs env (FilePath c) = Inr p"
  shows "(collisionFree names (map serviceIds (matching env c p ss))
            \<and> (\<exists>svcs'. serviceLoop env c ss (svcs, sk, names)
                  = Inr (svcs', sk \<union> Name ` {s \<in> set ss. \<not> MatchesPlatform env (prepare c p s)},
                         names \<union> inUse (map serviceIds (matching env c p ss)))))
         \<or> (\<exists>i. firstCollision names (map serviceIds (matching env c p ss)) i
                \<and> serviceLoop env c ss (svcs, sk, names) = Inl (DuplicateError i))"
proof (induction ss arbitrary: svcs sk names)
  case Nil
  then show ?case by (simp add: matching_def inUse_def)
next
  case (Cons s ss)
  let ?sc = "prepare c p s"
  show ?case
  proof (cases "MatchesPlatform env ?sc")
    case False
    have m: "matching env c p (s # ss) = matching env c p ss"
      using False by (simp add: matching_def)
    have sk: "insert (Name s) sk \<union> Name ` {s \<in> set ss. \<not> MatchesPlatform env (prepare c p s)}
          = sk \<union> Name ` {x \<in> set (s # ss). \<not> MatchesPlatform env (prepare c p x)}"
      using False by auto
    have step: "serviceLoop env c (s # ss) (svcs, sk, names)
          = serviceLoop env c ss (svcs, insert (Name s) sk, names)"
      using False assms by simp
    show ?thesis
      using Cons.IH [of names svcs "insert (Name s) sk"]
      unfolding m step sk by simp
  next
    case True
    have m: "matching env c p (s # ss) = ?sc # matching env c p ss"
      using True by (simp add: matching_def)
    show ?thesis
    proof (cases "\<exists>v \<in> set (serviceIds ?sc). v \<in> names")
      case True
      then have "length (intersect names (Aliases ?sc @ [Name ?sc])) > 0"
        by (simp add: intersect_empty serviceIds_def)
      then have "serviceLoop env c (s # ss) (svcs, sk, names)
          = Inl (DuplicateError (intersect names (serviceIds ?sc)))"
        using \<open>MatchesPlatform env ?sc\<close> assms by (simp add: serviceIds_def Let_def)
      moreover have "firstCollision names (map serviceIds (matching env c p (s # ss)))
           (intersect names (serviceIds ?sc))"
        unfolding m using True by (simp add: firstCollision_here)
      ultimately show ?thesis by blast
    next
      case False
      then have z: "\<not> length (intersect names (Aliases ?sc @ [Name ?sc])) > 0"
        by (simp add: intersect_empty serviceIds_def)
      have step: "serviceLoop env c (s # ss) (svcs, sk, names)
          = serviceLoop env c ss (svcs(Name s \<mapsto> ?sc), sk, names \<union> set (serviceIds ?sc))"
        using \<open>MatchesPlatform env ?sc\<close> assms z
        by (simp add: Let_def addToMap_eq serviceIds_def)
      have sk: "sk \<union> Name ` {s \<in> set ss. \<not> MatchesPlatform env (prepare c p s)}
          = sk \<union> Name ` {x \<in> set (s # ss). \<not> MatchesPlatform env (prepare c p x)}"
        using \<open>MatchesPlatform env ?sc\<close> by auto
      have u: "(names \<union> set (serviceIds ?sc)) \<union> inUse (map serviceIds (matching env c p ss))
          = names \<union> inUse (map serviceIds (matching env c p (s # ss)))"
        unfolding m by (auto simp: inUse_def)
      from Cons.IH [of "names \<union> set (serviceIds ?sc)" "svcs(Name s \<mapsto> ?sc)" sk]
      show ?thesis
      proof
        assume "collisionFree (names \<union> set (serviceIds ?sc)) (map serviceIds (matching env c p ss))
            \<and> (\<exists>svcs'. serviceLoop env c ss (svcs(Name s \<mapsto> ?sc), sk, names \<union> set (serviceIds ?sc))
                  = Inr (svcs', sk \<union> Name ` {s \<in> set ss. \<not> MatchesPlatform env (prepare c p s)},
                         (names \<union> set (serviceIds ?sc)) \<union> inUse (map serviceIds (matching env c p ss))))"
        then show ?thesis
          unfolding step sk u m using False by simp
      next
        assume "\<exists>i. firstCollision (names \<union> set (serviceIds ?sc)) (map serviceIds (matching env c p ss)) i
                \<and> serviceLoop env c ss (svcs(Name s \<mapsto> ?sc), sk, names \<union> set (serviceIds ?sc))
                     = Inl (DuplicateError i)"
        then obtain i where f: "firstCollision (names \<union> set (serviceIds ?sc))
                 (map serviceIds (matching env c p ss)) i"
          and r: "serviceLoop env c ss (svcs(Name s \<mapsto> ?sc), sk, names \<union> set (serviceIds ?sc))
                     = Inl (DuplicateError i)"
          by blast
        have "firstCollision names (map serviceIds (matching env c p (s # ss))) i"
          unfolding m using False f by (simp add: firstCollision_later)
        with r show ?thesis unfolding step by blast
      qed
    qed
  qed
qed

lemma firstCollision_append1: "firstCollision used xs i \<Longrightarrow> firstCollision used (xs @ ys) i"
  unfolding firstCollision_def
  by (metis append.assoc append_Cons)

lemma firstCollision_append2:
  assumes "collisionFree used xs" and "firstCollision (used \<union> inUse xs) ys i"
  shows "firstCollision used (xs @ ys) i"
proof -
  from assms(2) obtain pre ids post where r: "ys = pre @ ids # post"
    and f: "collisionFree (used \<union> inUse xs) pre"
    and v: "\<exists>v \<in> set ids. v \<in> (used \<union> inUse xs) \<union> inUse pre"
    and i: "i = intersect ((used \<union> inUse xs) \<union> inUse pre) ids"
    unfolding firstCollision_def by blast
  have u: "(used \<union> inUse xs) \<union> inUse pre = used \<union> inUse (xs @ pre)"
    by (auto simp: inUse_def)
  have "xs @ ys = (xs @ pre) @ ids # post" using r by simp
  moreover have "collisionFree used (xs @ pre)"
    using assms(1) f by (simp add: collisionFree_append)
  ultimately show ?thesis
    unfolding firstCollision_def using v i u by metis
qed

lemma firstPass_result:
  "(collisionFree names (map groupIds gs)
      \<and> (\<exists>svcs' groups' orph'. firstPass env c sk gs (svcs, groups, orph, names)
            = Inr (svcs', groups', orph', names \<union> inUse (map groupIds gs))))
   \<or> (\<exists>i. firstCollision names (map groupIds gs) i
          \<and> firstPass env c sk gs (svcs, groups, orph, names) = Inl (DuplicateError i))"
proof (induction gs arbitrary: svcs groups orph names)
  case Nil
  then show ?case by (simp add: inUse_def)
next
  case (Cons g gs)
  obtain svcs1 cs1 orph1 where sc: "serviceChildren env c sk (Children g) (svcs, [], orph) = (svcs1, cs1, orph1)"
    by (metis prod_cases3)
  show ?case
  proof (cases "\<exists>v \<in> set (groupIds g). v \<in> names")
    case True
    then have "intersect names (GroupAliases g @ [GroupName g]) \<noteq> []"
      by (simp add: intersect_empty groupIds_def)
    then have "firstPass env c sk (g # gs) (svcs, groups, orph, names)
        = Inl (DuplicateError (intersect names (groupIds g)))"
      using sc by (simp add: groupIds_def Let_def)
    moreover have "firstCollision names (map groupIds (g # gs)) (intersect names (groupIds g))"
      using True by (simp add: firstCollision_here)
    ultimately show ?thesis by blast
  next
    case False
    then have z: "intersect names (GroupAliases g @ [GroupName g]) = []"
      by (simp add: intersect_empty groupIds_def)
    define groups1 where "groups1 = groups(GroupName g \<mapsto>
                        \<lparr>GroupConfigName = GroupName g,
                         GroupConfigAliases = GroupAliases g,
                         GroupConfigDescription = GroupDescription g,
                         Services = cs1,
                         Groups = [],
                         GroupConfigEnv = GroupEnv g,
                         ChildOrder = Children g\<rparr>)"
    have step: "firstPass env c sk (g # gs) (svcs, groups, orph, names)
        = firstPass env c sk gs (svcs1, groups1, orph1, names \<union> set (groupIds g))"
      using sc z by (simp add: Let_def addToMap_eq groupIds_def groups1_def)
    have u: "(names \<union> set (groupIds g)) \<union> inUse (map groupIds gs)
          = names \<union> inUse (map groupIds (g # gs))"
      by (auto simp: inUse_def)
    from Cons.IH [of "names \<union> set (groupIds g)" svcs1 groups1 orph1]
    show ?thesis
    proof
      assume "collisionFree (names \<union> set (groupIds g)) (map groupIds gs)
        \<and> (\<exists>svcs' groups' orph'. firstPass env c sk gs (svcs1, groups1, orph1, names \<union> set (groupIds g))
            = Inr (svcs', groups', orph', (names \<union> set (groupIds g)) \<union> inUse (map groupIds gs)))"
      then show ?thesis unfolding step u using False by simp
    next
      assume "\<exists>i. firstCollision (names \<union> set (groupIds g)) (map groupIds gs) i
          \<and> firstPass env c sk gs (svcs1, groups1, orph1, names \<union> set (groupIds g)) = Inl (DuplicateError i)"
      then obtain i where f: "firstCollision (names \<union> set (groupIds g)) (map groupIds gs) i"
        and r: "firstPass env c sk gs (svcs1, groups1, orph1, names \<union> set (groupIds g)) = Inl (DuplicateError i)"
        by blast
      have "firstCollision names (map groupIds (g # gs)) i"
        using False f by (simp add: firstCollision_later)
      with r show ?thesis unfolding step by blast
    qed
  qed
qed

lemma serviceLoop_svcs:
  assumes "filepathAbs env (FilePath c) = Inr p"
    and "serviceLoop env c ss (svcs, sk, names) = Inr (svcs', sk', names')"
    and "dom svcs \<subseteq> names"
  shows "(\<forall>n \<in> names. svcs' n = svcs n)
       \<and> (\<forall>sc \<in> set (matching env c p ss). svcs' (Name sc) = Some sc)
       \<and> (\<forall>n sc. svcs' n = Some sc \<longrightarrow> svcs n = Some sc \<or> (sc \<in> set (matching env c p ss) \<and> Name sc = n))"
  using assms(2,3)
proof (induction ss arbitrary: svcs sk names)
  case Nil
  then show ?case by (simp add: matching_def)
next
  case (Cons s ss)
  let ?sc = "prepare c p s"
  show ?case
  proof (cases "MatchesPlatform env ?sc")
    case False
    have m: "matching env c p (s # ss) = matching env c p ss"
      using False by (simp add: matching_def)
    have "serviceLoop env c ss (svcs, insert (Name s) sk, names) = Inr (svcs', sk', names')"
      using Cons.prems(1) False assms(1) by simp
    from Cons.IH [OF this Cons.prems(2)] show ?thesis unfolding m .
  next
    case True
    have m: "matching env c p (s # ss) = ?sc # matching env c p ss"
      using True by (simp add: matching_def)
    have z: "intersect names (Aliases s @ [Name s]) = []"
      using Cons.prems(1) True assms(1) by (auto simp: Let_def split: if_splits)
    then have fresh: "Name s \<notin> names"
      by (simp add: intersect_empty)
    have step: "serviceLoop env c ss (svcs(Name s \<mapsto> ?sc), sk, names \<union> set (serviceIds ?sc))
        = Inr (svcs', sk', names')"
      using Cons.prems(1) True assms(1) z by (simp add: Let_def addToMap_eq serviceIds_def)
    have d: "dom (svcs(Name s \<mapsto> ?sc)) \<subseteq> names \<union> set (serviceIds ?sc)"
      using Cons.prems(2) by (auto simp: serviceIds_def)
    from Cons.IH [OF step d]
    have a: "\<forall>n \<in> names \<union> set (serviceIds ?sc). svcs' n = (svcs(Name s \<mapsto> ?sc)) n"
      and b: "\<forall>sc \<in> set (matching env c p ss). svcs' (Name sc) = Some sc"
      and e: "\<forall>n sc. svcs' n = Some sc \<longrightarrow> (svcs(Name s \<mapsto> ?sc)) n = Some sc
                 \<or> (sc \<in> set (matching env c p ss) \<and> Name sc = n)"
      by blast+
    have a': "\<forall>n \<in> names. svcs' n = svcs n"
      using a fresh by auto
    have "svcs' (Name s) = Some ?sc"
      using a by (simp add: serviceIds_def)
    then have b': "\<forall>sc \<in> set (matching env c p (s # ss)). svcs' (Name sc) = Some sc"
      unfolding m using b by simp
    have e': "\<forall>n sc. svcs' n = Some sc \<longrightarrow> svcs n = Some sc
                 \<or> (sc \<in> set (matching env c p (s # ss)) \<and> Name sc = n)"
    proof (intro allI impI)
      fix n sc assume "svcs' n = Some sc"
      with e have "(svcs(Name s \<mapsto> ?sc)) n = Some sc
                 \<or> (sc \<in> set (matching env c p ss) \<and> Name sc = n)"
        by blast
      then show "svcs n = Some sc \<or> (sc \<in> set (matching env c p (s # ss)) \<and> Name sc = n)"
        unfolding m by (cases "n = Name s") auto
    qed
    from a' b' e' show ?thesis by blast
  qed
qed

lemma serviceLoop_skipped:
  assumes "filepathAbs env (FilePath c) = Inr p"
    and "serviceLoop env c ss (svcs, sk, names) = Inr (svcs', sk', names')"
  shows "sk' = sk \<union> Name ` {s \<in> set ss. \<not> MatchesPlatform env (prepare c p s)}"
  using serviceLoop_result [OF assms(1), of names ss svcs sk] assms(2) by auto

lemma serviceChildren_result:
  assumes "serviceChildren env c sk children (svcs, cs, orph) = (svcs', cs', orph')"
  shows "(\<forall>n. map_option erasePath (svcs' n) = map_option erasePath (svcs n))
       \<and> cs' = cs @ filter (\<lambda>n. n \<in> dom svcs) children
       \<and> set orph' = set orph \<union> {n \<in> set children. n \<notin> dom svcs \<and> n \<notin> sk}
       \<and> (distinct orph \<longrightarrow> distinct orph')"
  using assms
proof (induction children arbitrary: svcs cs orph)
  case Nil
  then show ?case by simp
next
  case (Cons name rest)
  show ?case
  proof (cases "svcs name")
    case None
    show ?thesis
    proof (cases "name \<in> sk")
      case True
      have "serviceChildren env c sk rest (svcs, cs, orph) = (svcs', cs', orph')"
        using Cons.prems None True by simp
      from Cons.IH [OF this] show ?thesis using None True by auto
    next
      case False
      have "serviceChildren env c sk rest (svcs, cs, addOrphan name orph) = (svcs', cs', orph')"
        using Cons.prems None False by simp
      from Cons.IH [OF this] show ?thesis using None False
        by (auto simp: addOrphan_def split: if_splits)
    qed
  next
    case (Some s)
    define s' where "s' = (case Path s of None \<Rightarrow> s | Some q \<Rightarrow> s\<lparr>Path := Some (combinePath env c q)\<rparr>)"
    have e: "erasePath s' = erasePath s"
      by (simp add: s'_def erasePath_def split: option.splits)
    have "serviceChildren env c sk rest (svcs(name \<mapsto> s'), cs @ [name], orph) = (svcs', cs', orph')"
      using Cons.prems Some by (simp add: s'_def)
    from Cons.IH [OF this]
    have a: "\<forall>n. map_option erasePath (svcs' n) = map_option erasePath ((svcs(name \<mapsto> s')) n)"
      and b: "cs' = (cs @ [name]) @ filter (\<lambda>n. n \<in> dom (svcs(name \<mapsto> s'))) rest"
      and o: "set orph' = set orph \<union> {n \<in> set rest. n \<notin> dom (svcs(name \<mapsto> s')) \<and> n \<notin> sk}"
      and d: "distinct orph \<longrightarrow> distinct orph'"
      by blast+
    have dm: "dom (svcs(name \<mapsto> s')) = dom svcs" using Some by auto
    have "\<forall>n. map_option erasePath (svcs' n) = map_option erasePath (svcs n)"
      using a e Some by (auto split: if_splits)
    moreover have "cs' = cs @ filter (\<lambda>n. n \<in> dom svcs) (name # rest)"
      using b Some unfolding dm by auto
    moreover have "set orph' = set orph \<union> {n \<in> set (name # rest). n \<notin> dom svcs \<and> n \<notin> sk}"
      using o Some unfolding dm by auto
    ultimately show ?thesis using d by blast
  qed
qed

lemma firstPass_success:
  assumes "firstPass env c sk gs (svcs, groups, orph, names) = Inr (svcs', groups', orph', names')"
  shows "(\<forall>n. map_option erasePath (svcs' n) = map_option erasePath (svcs n))
       \<and> dom groups' = dom groups \<union> GroupName ` set gs
       \<and> (\<forall>n gr. groups' n = Some gr \<longrightarrow> groups n = Some gr
              \<or> (Groups gr = [] \<and> set (Services gr) \<subseteq> dom svcs))
       \<and> set orph' = set orph \<union> {n. \<exists>g \<in> set gs. n \<in> set (Children g) \<and> n \<notin> dom svcs \<and> n \<notin> sk}
       \<and> (distinct orph \<longrightarrow> distinct orph')
       \<and> collisionFree names (map groupIds gs)"
  using assms
proof (induction gs arbitrary: svcs groups orph names)
  case Nil
  then show ?case by simp
next
  case (Cons g gs)
  obtain svcs1 cs1 orph1 where sc: "serviceChildren env c sk (Children g) (svcs, [], orph) = (svcs1, cs1, orph1)"
    by (metis prod_cases3)
  from serviceChildren_result [OF sc]
  have s1: "\<forall>n. map_option erasePath (svcs1 n) = map_option erasePath (svcs n)"
    and c1: "cs1 = filter (\<lambda>n. n \<in> dom svcs) (Children g)"
    and o1: "set orph1 = set orph \<union> {n \<in> set (Children g). n \<notin> dom svcs \<and> n \<notin> sk}"
    and d1: "distinct orph \<longrightarrow> distinct orph1"
    by simp_all
  have dm: "dom svcs1 = dom svcs"
  proof -
    have "(svcs1 n = None) = (svcs n = None)" for n
      using s1 by (metis option.map_disc_iff)
    then show ?thesis by (auto simp: dom_def)
  qed
  have z: "intersect names (GroupAliases g @ [GroupName g]) = []"
    using Cons.prems sc by (auto simp: Let_def split: if_splits)
  define groups1 where "groups1 = groups(GroupName g \<mapsto>
                        \<lparr>GroupConfigName = GroupName g,
                         GroupConfigAliases = GroupAliases g,
                         GroupConfigDescription = GroupDescription g,
                         Services = cs1,
                         Groups = [],
                         GroupConfigEnv = GroupEnv g,
                         ChildOrder = Children g\<rparr>)"
  have step: "firstPass env c sk gs (svcs1, groups1, orph1, names \<union> set (groupIds g))
      = Inr (svcs', groups', orph', names')"
    using Cons.prems sc z by (simp add: Let_def addToMap_eq groupIds_def groups1_def)
  from Cons.IH [OF step]
  have a: "\<forall>n. map_option erasePath (svcs' n) = map_option erasePath (svcs1 n)"
    and b: "dom groups' = dom groups1 \<union> GroupName ` set gs"
    and e: "\<forall>n gr. groups' n = Some gr \<longrightarrow> groups1 n = Some gr
              \<or> (Groups gr = [] \<and> set (Services gr) \<subseteq> dom svcs1)"
    and o: "set orph' = set orph1 \<union> {n. \<exists>g \<in> set gs. n \<in> set (Children g) \<and> n \<notin> dom svcs1 \<and> n \<notin> sk}"
    and d: "distinct orph1 \<longrightarrow> distinct orph'"
    and f: "collisionFree (names \<union> set (groupIds g)) (map groupIds gs)"
    by blast+
  have "\<forall>n. map_option erasePath (svcs' n) = map_option erasePath (svcs n)"
    using a s1 by simp
  moreover have "dom groups' = dom groups \<union> GroupName ` set (g # gs)"
    using b by (auto simp: groups1_def)
  moreover have "\<forall>n gr. groups' n = Some gr \<longrightarrow> groups n = Some gr
              \<or> (Groups gr = [] \<and> set (Services gr) \<subseteq> dom svcs)"
  proof (intro allI impI)
    fix n gr assume "groups' n = Some gr"
    with e have "groups1 n = Some gr \<or> (Groups gr = [] \<and> set (Services gr) \<subseteq> dom svcs1)"
      by blast
    then show "groups n = Some gr \<or> (Groups gr = [] \<and> set (Services gr) \<subseteq> dom svcs)"
      unfolding dm by (auto simp: groups1_def c1 split: if_splits)
  qed
  moreover have "set orph' = set orph \<union> {n. \<exists>g \<in> set (g # gs). n \<in> set (Children g) \<and> n \<notin> dom svcs \<and> n \<notin> sk}"
    using o o1 unfolding dm by auto
  moreover have "distinct orph \<longrightarrow> distinct orph'"
    using d d1 by blast
  moreover have "collisionFree names (map groupIds (g # gs))"
    using f z by (simp add: intersect_empty groupIds_def)
  ultimately show ?case by blast
qed

lemma groupChildren_partial:
  assumes "groupChildren fuel groups gname children (orph, cg) = Some (Inr (orph', cg'))"
  shows "cg' = cg @ filter (\<lambda>n. n \<in> dom groups) children
       \<and> set orph' = set orph - {n \<in> set children. n \<in> dom groups}
       \<and> (distinct orph \<longrightarrow> distinct orph')"
  using assms
proof (induction children arbitrary: orph cg)
  case Nil
  then show ?case by simp
next
  case (Cons name rest)
  show ?case
  proof (cases "groups name")
    case None
    then have "groupChildren fuel groups gname rest (orph, cg) = Some (Inr (orph', cg'))"
      using Cons.prems by (auto split: option.splits bool.splits)
    from Cons.IH [OF this] show ?thesis using None by auto
  next
    case (Some gr)
    then have "groupChildren fuel groups gname rest (removeAll name orph, cg @ [name]) = Some (Inr (orph', cg'))"
      using Cons.prems by (auto split: option.splits bool.splits)
    from Cons.IH [OF this] show ?thesis using Some by (auto simp: distinct_removeAll)
  qed
qed

lemma groupChildren_error:
  "groupChildren fuel groups gname children st = Some (Inl e) \<Longrightarrow> e = GroupCycleError gname"
proof (induction children arbitrary: st)
  case Nil
  then show ?case by simp
next
  case (Cons name rest)
  obtain orph cg where st: "st = (orph, cg)" by (cases st)
  from Cons show ?case unfolding st
    by (auto split: option.splits bool.splits prod.splits)
qed

lemma secondPass_partial:
  assumes "secondPass fuel gs (groups, orph) = Some (Inr (groups', orph'))"
  shows "set orph' = set orph - {n. n \<in> dom groups \<and> (\<exists>g \<in> set gs. n \<in> set (Children g))}
       \<and> (distinct orph \<longrightarrow> distinct orph')
       \<and> dom groups' = dom groups
       \<and> (\<forall>n. map_option Services (groups' n) = map_option Services (groups n))"
  using assms
proof (induction gs arbitrary: groups orph)
  case Nil
  then show ?case by simp
next
  case (Cons g gs)
  from Cons.prems obtain orph1 cg1 where
    gc: "groupChildren fuel groups (GroupName g) (Children g) (orph, []) = Some (Inr (orph1, cg1))"
    by (auto split: option.splits sum.splits)
  define groups1 where "groups1 = (case groups (GroupName g) of
                None \<Rightarrow> groups
              | Some gr \<Rightarrow> groups(GroupName g \<mapsto> gr\<lparr>Groups := cg1\<rparr>))"
  have step: "secondPass fuel gs (groups1, orph1) = Some (Inr (groups', orph'))"
    using Cons.prems gc by (simp add: groups1_def)
  have dm: "dom groups1 = dom groups"
    by (auto simp: groups1_def split: option.splits if_splits)
  have sv: "\<forall>n. map_option Services (groups1 n) = map_option Services (groups n)"
    by (auto simp: groups1_def split: option.splits)
  from groupChildren_partial [OF gc]
  have o1: "set orph1 = set orph - {n \<in> set (Children g). n \<in> dom groups}"
    and d1: "distinct orph \<longrightarrow> distinct orph1"
    by simp_all
  from Cons.IH [OF step]
  have o: "set orph' = set orph1 - {n. n \<in> dom groups1 \<and> (\<exists>g \<in> set gs. n \<in> set (Children g))}"
    and d: "distinct orph1 \<longrightarrow> distinct orph'"
    and dg: "dom groups' = dom groups1"
    and s: "\<forall>n. map_option Services (groups' n) = map_option Services (groups1 n)"
    by blast+
  have "set orph' = set orph - {n. n \<in> dom groups \<and> (\<exists>g \<in> set (g # gs). n \<in> set (Children g))}"
    using o o1 unfolding dm by auto
  then show ?case using d d1 dg dm s sv by simp
qed

lemma secondPass_error:
  "secondPass fuel gs st = Some (Inl e) \<Longrightarrow> \<exists>g \<in> set gs. e = GroupCycleError (GroupName g)"
proof (induction gs arbitrary: st)
  case Nil
  then show ?case by simp
next
  case (Cons g gs)
  obtain groups orph where st: "st = (groups, orph)" by (cases st)
  show ?case
  proof (cases "groupChildren fuel groups (GroupName g) (Children g) (orph, [])")
    case None
    then show ?thesis using Cons.prems unfolding st by simp
  next
    case (Some r)
    show ?thesis
    proof (cases r)
      case (Inl e')
      then have "e = e'" using Cons.prems Some unfolding st by simp
      moreover have "e' = GroupCycleError (GroupName g)"
        using Some Inl groupChildren_error by blast
      ultimately show ?thesis by simp
    next
      case (Inr b)
      obtain orph1 cg1 where b: "b = (orph1, cg1)" by (cases b)
      from Cons.prems Some Inr b
      have "\<exists>st'. secondPass fuel gs st' = Some (Inl e)"
        unfolding st by auto
      with Cons.IH show ?thesis by auto
    qed
  qed
qed

lemma serviceLoop_error:
  "serviceLoop env c ss st = Inl e \<Longrightarrow> (\<exists>m. e = AbsError m) \<or> (\<exists>i. e = DuplicateError i)"
proof (induction ss arbitrary: st)
  case Nil
  then show ?case by simp
next
  case (Cons s ss)
  obtain svcs sk names where st: "st = (svcs, sk, names)" by (cases st)
  from Cons.prems show ?case unfolding st
    by (auto simp: Let_def split: sum.splits if_splits dest: Cons.IH)
qed

lemma firstPass_error:
  "firstPass env c sk gs st = Inl e \<Longrightarrow> \<exists>i. e = DuplicateError i"
proof (induction gs arbitrary: st)
  case Nil
  then show ?case by simp
next
  case (Cons g gs)
  obtain svcs groups orph names where st: "st = (svcs, groups, orph, names)" by (cases st)
  from Cons.prems show ?case unfolding st
    by (auto simp: Let_def split: prod.splits if_splits dest: Cons.IH)
qed

text \<open>The runs of \<open>initMaps\<close> that complete both passes.\<close>

lemma initMaps_completed:
  assumes "initMaps fuel env c = Some (r, c')"
    and "\<forall>m. r \<noteq> Some (AbsError m)" and "\<forall>i. r \<noteq> Some (DuplicateError i)"
    and "\<forall>g. r \<noteq> Some (GroupCycleError g)"
  shows "\<exists>svcs sk names svcs' groups orph names' groups' orph'.
           serviceLoop env c (allServices c) (Map.empty, {}, {}) = Inr (svcs, sk, names)
         \<and> firstPass env c sk (allGroups c) (svcs, Map.empty, [], names) = Inr (svcs', groups, orph, names')
         \<and> secondPass fuel (allGroups c) (groups, orph) = Some (Inr (groups', orph'))
         \<and> (r, c') = (if orph' \<noteq> [] then (Some (NotFoundError (rangeKeys env orph')), c)
                       else (None, c\<lparr>ServiceMap := svcs', GroupMap := groups'\<rparr>))"
proof (cases "serviceLoop env c (allServices c) (Map.empty, {}, {})")
  case (Inl e)
  then have "r = Some e" using assms(1) by (simp add: initMaps_def allServices_def)
  with serviceLoop_error [OF Inl] assms(2,3) show ?thesis by auto
next
  case (Inr a)
  obtain svcs sk names where a: "a = (svcs, sk, names)" by (cases a)
  show ?thesis
  proof (cases "firstPass env c sk (allGroups c) (svcs, Map.empty, [], names)")
    case (Inl e)
    then have "r = Some e" using assms(1) Inr a by (simp add: initMaps_def allServices_def allGroups_def)
    with firstPass_error [OF Inl] assms(3) show ?thesis by auto
  next
    case fp: (Inr b)
    obtain svcs' groups orph names' where b: "b = (svcs', groups, orph, names')" by (cases b)
    show ?thesis
    proof (cases "secondPass fuel (allGroups c) (groups, orph)")
      case None
      then show ?thesis using assms(1) Inr a fp b
        by (simp add: initMaps_def allServices_def allGroups_def)
    next
      case (Some x)
      show ?thesis
      proof (cases x)
        case (Inl e)
        then have "r = Some e" using assms(1) Inr a fp b Some
          by (simp add: initMaps_def allServices_def allGroups_def)
        moreover have "\<exists>g \<in> set (allGroups c). e = GroupCycleError (GroupName g)"
          using Some Inl by (simp add: secondPass_error)
        ultimately show ?thesis using assms(4) by auto
      next
        case sp: (Inr y)
        obtain groups' orph' where y: "y = (groups', orph')" by (cases y)
        have "(r, c') = (if orph' \<noteq> [] then (Some (NotFoundError (rangeKeys env orph')), c)
                       else (None, c\<lparr>ServiceMap := svcs', GroupMap := groups'\<rparr>))"
          using assms(1) Inr a fp b Some sp y
          by (simp add: initMaps_def allServices_def allGroups_def split: if_splits)
        then show ?thesis using Inr a fp b Some sp y by blast
      qed
    qed
  qed
qed

lemma completed_facts:
  assumes abs: "filepathAbs env (FilePath c) = Inr p"
    and sl: "serviceLoop env c (allServices c) (Map.empty, {}, {}) = Inr (svcs, sk, names)"
    and fp: "firstPass env c sk (allGroups c) (svcs, Map.empty, [], names) = Inr (svcs', groups, orph, names')"
    and sp: "secondPass fuel (allGroups c) (groups, orph) = Some (Inr (groups', orph'))"
  shows "sk = Name ` {s \<in> set (allServices c). \<not> MatchesPlatform env (prepare c p s)}"
    and "\<forall>sc \<in> set (matching env c p (allServices c)).
            \<exists>sc'. svcs' (Name sc) = Some sc' \<and> erasePath sc' = erasePath sc"
    and "\<forall>n sc'. svcs' n = Some sc' \<longrightarrow>
            (\<exists>sc \<in> set (matching env c p (allServices c)). Name sc = n \<and> erasePath sc' = erasePath sc)"
    and "\<forall>n gr. groups' n = Some gr \<longrightarrow> set (Services gr) \<subseteq> dom svcs'"
    and "set orph' = set (unresolvedNames env c p)"
    and "distinct orph'"
proof -
  show sk: "sk = Name ` {s \<in> set (allServices c). \<not> MatchesPlatform env (prepare c p s)}"
    using serviceLoop_skipped [OF abs sl] by simp
  from serviceLoop_svcs [OF abs sl]
  have b: "\<forall>sc \<in> set (matching env c p (allServices c)). svcs (Name sc) = Some sc"
    and e: "\<forall>n sc. svcs n = Some sc \<longrightarrow> sc \<in> set (matching env c p (allServices c)) \<and> Name sc = n"
    by auto
  from firstPass_success [OF fp]
  have er: "\<forall>n. map_option erasePath (svcs' n) = map_option erasePath (svcs n)"
    and dg: "dom groups = GroupName ` set (allGroups c)"
    and gs: "\<forall>n gr. groups n = Some gr \<longrightarrow> set (Services gr) \<subseteq> dom svcs"
    and o: "set orph = {n. \<exists>g \<in> set (allGroups c). n \<in> set (Children g) \<and> n \<notin> dom svcs \<and> n \<notin> sk}"
    and d: "distinct orph"
    by auto
  have dm: "dom svcs' = dom svcs"
  proof -
    have "(svcs' n = None) = (svcs n = None)" for n
      using er by (metis option.map_disc_iff)
    then show ?thesis by (auto simp: dom_def)
  qed
  have ds: "dom svcs = Name ` set (matching env c p (allServices c))"
    using b e by (auto simp: dom_def)
  show "\<forall>sc \<in> set (matching env c p (allServices c)).
            \<exists>sc'. svcs' (Name sc) = Some sc' \<and> erasePath sc' = erasePath sc"
  proof
    fix sc assume "sc \<in> set (matching env c p (allServices c))"
    with b have "svcs (Name sc) = Some sc" by blast
    with er have "map_option erasePath (svcs' (Name sc)) = Some (erasePath sc)"
      by (metis option.simps(9))
    then show "\<exists>sc'. svcs' (Name sc) = Some sc' \<and> erasePath sc' = erasePath sc"
      by auto
  qed
  show "\<forall>n sc'. svcs' n = Some sc' \<longrightarrow>
            (\<exists>sc \<in> set (matching env c p (allServices c)). Name sc = n \<and> erasePath sc' = erasePath sc)"
  proof (intro allI impI)
    fix n sc' assume a: "svcs' n = Some sc'"
    with er have "map_option erasePath (svcs n) = Some (erasePath sc')"
      by (metis option.simps(9))
    then obtain sc where "svcs n = Some sc" and "erasePath sc = erasePath sc'" by auto
    with e show "\<exists>sc \<in> set (matching env c p (allServices c)). Name sc = n \<and> erasePath sc' = erasePath sc"
      by metis
  qed
  from secondPass_partial [OF sp]
  have o': "set orph' = set orph - {n. n \<in> dom groups \<and> (\<exists>g \<in> set (allGroups c). n \<in> set (Children g))}"
    and d': "distinct orph \<longrightarrow> distinct orph'"
    and sv: "\<forall>n. map_option Services (groups' n) = map_option Services (groups n)"
    by blast+
  show "\<forall>n gr. groups' n = Some gr \<longrightarrow> set (Services gr) \<subseteq> dom svcs'"
  proof (intro allI impI)
    fix n gr assume "groups' n = Some gr"
    with sv have "map_option Services (groups n) = Some (Services gr)"
      by (metis option.simps(9))
    then obtain gr0 where "groups n = Some gr0" and "Services gr0 = Services gr" by auto
    with gs show "set (Services gr) \<subseteq> dom svcs'" unfolding dm by metis
  qed
  show "set orph' = set (unresolvedNames env c p)"
    unfolding o' o dg ds sk unresolvedNames_def by auto
  show "distinct orph'" using d d' by simp
qed

lemma testAbs: "filepathAbs testPlatform (FilePath (testConfig ss gs)) = Inr ''/work/edward.json''"
  by (simp add: testPlatform_def testConfig_def)

section \<open>Duplicate identifiers\<close>

text \<open>
  C1, as the claim states it, fails. With the services a, b, a, b the error names only
  a, although b collides as well: \<open>initMaps\<close> returns at the first definition that has an
  identifier in use. And a service that does not match the platform takes no part:
  two services named a, of which one is for another platform, resolve without error.
\<close>

theorem initMaps_duplicate_counterexample:
  "map_option fst (initMaps 0 testPlatform repeatedConfig) = Some (Some (DuplicateError [''a'']))
   \<and> Error (DuplicateError [''a'']) = ''Duplicate name or alias: a''
   \<and> map_option fst (initMaps 0 testPlatform variantsConfig) = Some None"
  by (simp add: initMaps_def repeatedConfig_def variantsConfig_def testConfig_def testPlatform_def
      testService_def prepare_def intersect_def addToMap_def Let_def)

text \<open>
  C1, amended. Take the definitions in processing order: the services that match the
  platform (own, then imported), then the groups (own, then imported). If some
  definition has an identifier that an earlier one uses, then \<open>initMaps\<close> fails, for every
  bound on the cycle walk, with the duplicate error of the first such definition: the
  list of all its identifiers that are in use by then, sorted ascending, rendered
  comma-joined after "Duplicate name or alias: "; the config is returned unchanged.
\<close>

theorem initMaps_duplicate:
  assumes "filepathAbs env (FilePath c) = Inr p"
    and "\<not> collisionFree {} (identifierLists env c p)"
  shows "\<exists>i. firstCollision {} (identifierLists env c p) i
           \<and> initMaps fuel env c = Some (Some (DuplicateError i), c)
           \<and> sorted i \<and> i \<noteq> []
           \<and> Error (DuplicateError i) = ''Duplicate name or alias: '' @ joinStrings i '', ''"
proof -
  let ?A = "map serviceIds (matching env c p (allServices c))"
  let ?B = "map groupIds (allGroups c)"
  have props: "sorted i \<and> i \<noteq> []" if "firstCollision used idss i" for used idss i
    using that unfolding firstCollision_def
    by (metis sorted_intersect intersect_empty)
  from serviceLoop_result [OF assms(1), of "{}" "allServices c" Map.empty "{}"]
  have "\<exists>i. firstCollision {} (identifierLists env c p) i
           \<and> initMaps fuel env c = Some (Some (DuplicateError i), c)"
  proof
    assume "\<exists>i. firstCollision {} ?A i
        \<and> serviceLoop env c (allServices c) (Map.empty, {}, {}) = Inl (DuplicateError i)"
    then obtain i where f: "firstCollision {} ?A i"
      and r: "serviceLoop env c (allServices c) (Map.empty, {}, {}) = Inl (DuplicateError i)"
      by blast
    have "firstCollision {} (identifierLists env c p) i"
      unfolding identifierLists_def using f by (rule firstCollision_append1)
    moreover have "initMaps fuel env c = Some (Some (DuplicateError i), c)"
      using r by (simp add: initMaps_def allServices_def)
    ultimately show ?thesis by blast
  next
    assume "collisionFree {} ?A
        \<and> (\<exists>svcs'. serviceLoop env c (allServices c) (Map.empty, {}, {})
              = Inr (svcs', {} \<union> Name ` {s \<in> set (allServices c). \<not> MatchesPlatform env (prepare c p s)},
                     {} \<union> inUse ?A))"
    then obtain svcs' sk where fa: "collisionFree {} ?A"
      and r: "serviceLoop env c (allServices c) (Map.empty, {}, {}) = Inr (svcs', sk, inUse ?A)"
      by auto
    have nb: "\<not> collisionFree (inUse ?A) ?B"
      using assms(2) fa by (simp add: identifierLists_def collisionFree_append)
    from firstPass_result [of "inUse ?A" "allGroups c" env c sk svcs' Map.empty "[]"] nb
    obtain i where f: "firstCollision (inUse ?A) ?B i"
      and r2: "firstPass env c sk (allGroups c) (svcs', Map.empty, [], inUse ?A) = Inl (DuplicateError i)"
      by blast
    have "firstCollision {} (identifierLists env c p) i"
      unfolding identifierLists_def using fa f by (simp add: firstCollision_append2)
    moreover have "initMaps fuel env c = Some (Some (DuplicateError i), c)"
      using r r2 by (simp add: initMaps_def allServices_def allGroups_def)
    ultimately show ?thesis by blast
  qed
  then show ?thesis using props by auto
qed

theorem initMaps_duplicate_witness:
  "filepathAbs testPlatform (FilePath exampleConfig) = Inr ''/work/edward.json''
   \<and> \<not> collisionFree {} (identifierLists testPlatform exampleConfig ''/work/edward.json'')
   \<and> initMaps 0 testPlatform exampleConfig = Some (Some (DuplicateError [''svc-a2'']), exampleConfig)
   \<and> Error (DuplicateError [''svc-a2'']) = ''Duplicate name or alias: svc-a2''"
proof -
  have h1: "filepathAbs testPlatform (FilePath exampleConfig) = Inr ''/work/edward.json''"
    by (simp add: exampleConfig_def testAbs)
  have h2: "\<not> collisionFree {} (identifierLists testPlatform exampleConfig ''/work/edward.json'')"
    by (simp add: identifierLists_def matching_def allServices_def allGroups_def exampleConfig_def
        testConfig_def testPlatform_def testService_def testGroup_def serviceIds_def groupIds_def
        prepare_def)
  have ev: "initMaps 0 testPlatform exampleConfig = Some (Some (DuplicateError [''svc-a2'']), exampleConfig)"
    by (simp add: initMaps_def exampleConfig_def testConfig_def testPlatform_def testService_def
        testGroup_def prepare_def intersect_def addToMap_def Let_def)
  from initMaps_duplicate [OF h1 h2, of 0] ev h1 h2 show ?thesis
    by auto
qed

section \<open>The shared environment\<close>

text \<open>
  C2, as the claim states it, fails. The shared list holds A=2 and the service holds
  A=1: the resolved service holds both entries, the shared one last, although its key is
  present in the service's own list.
\<close>

theorem initMaps_env_counterexample:
  "map_option Env (resolvedService (initMaps 0 testPlatform envConfig) ''a'') = Some [''A=1'', ''A=2'']
   \<and> ''A=2'' \<in> set (ConfigEnv envConfig)
   \<and> envKey ''A=2'' \<in> envKey ` set (Env envService)"
  by (simp add: resolvedService_def initMaps_def envConfig_def envService_def testConfig_def
      testPlatform_def envKey_def testService_def prepare_def intersect_def addToMap_def Let_def)

text \<open>
  C2, amended. When resolution succeeds, every service that matches the platform is
  stored under its name with the environment list made of its own entries followed by
  all entries of the shared list; no entry is dropped.
\<close>

theorem initMaps_env_appended:
  assumes "initMaps fuel env c = Some (None, c')"
    and "filepathAbs env (FilePath c) = Inr p"
    and "s \<in> set (allServices c)" and "MatchesPlatform env (prepare c p s)"
  shows "\<exists>sc. ServiceMap c' (Name s) = Some sc \<and> Env sc = Env s @ ConfigEnv c"
proof -
  from initMaps_completed [OF assms(1)]
  obtain svcs sk names svcs' groups orph names' groups' orph' where
    sl: "serviceLoop env c (allServices c) (Map.empty, {}, {}) = Inr (svcs, sk, names)"
    and fp: "firstPass env c sk (allGroups c) (svcs, Map.empty, [], names) = Inr (svcs', groups, orph, names')"
    and sp: "secondPass fuel (allGroups c) (groups, orph) = Some (Inr (groups', orph'))"
    and r: "(None, c') = (if orph' \<noteq> [] then (Some (NotFoundError (rangeKeys env orph')), c)
                       else (None, c\<lparr>ServiceMap := svcs', GroupMap := groups'\<rparr>))"
    by auto
  have c': "ServiceMap c' = svcs'" using r by (auto split: if_splits)
  have "prepare c p s \<in> set (matching env c p (allServices c))"
    using assms(3,4) by (simp add: matching_def)
  with completed_facts(2) [OF assms(2) sl fp sp]
  obtain sc where "svcs' (Name s) = Some sc" and e: "erasePath sc = erasePath (prepare c p s)"
    by fastforce
  moreover have "Env sc = Env (erasePath sc)" by (simp add: erasePath_def)
  ultimately have "svcs' (Name s) = Some sc \<and> Env sc = Env s @ ConfigEnv c"
    by (simp add: erasePath_def)
  then show ?thesis unfolding c' by blast
qed

theorem initMaps_env_appended_witness:
  "filepathAbs testPlatform (FilePath envConfig) = Inr ''/work/edward.json''
   \<and> envService \<in> set (allServices envConfig)
   \<and> MatchesPlatform testPlatform (prepare envConfig ''/work/edward.json'' envService)
   \<and> (\<exists>c'. initMaps 0 testPlatform envConfig = Some (None, c')
          \<and> (\<exists>sc. ServiceMap c' ''a'' = Some sc \<and> Env sc = [''A=1'', ''A=2'']))"
proof -
  have h2: "filepathAbs testPlatform (FilePath envConfig) = Inr ''/work/edward.json''"
    by (simp add: envConfig_def testConfig_def testPlatform_def)
  have h3: "envService \<in> set (allServices envConfig)"
    by (simp add: allServices_def envConfig_def testConfig_def)
  have h4: "MatchesPlatform testPlatform (prepare envConfig ''/work/edward.json'' envService)"
    by (simp add: testPlatform_def prepare_def envService_def testService_def)
  obtain c' where h1: "initMaps 0 testPlatform envConfig = Some (None, c')"
    by (simp add: initMaps_def envConfig_def envService_def testConfig_def testPlatform_def
        testService_def prepare_def intersect_def addToMap_def Let_def)
  from initMaps_env_appended [OF h1 h2 h3 h4] h1 h2 h3 h4 show ?thesis
    by (simp add: envService_def testService_def envConfig_def testConfig_def)
qed

section \<open>Unresolved children\<close>

text \<open>
  C7. \<open>range\<close> yields the keys of a map in some order. When \<open>initMaps\<close> returns and its
  result is neither a duplicate error nor a cycle error (both passes have run to their
  end), and some child name is neither the name of a service that matches the platform,
  nor of a skipped service, nor of a group, then the result is the not-found error, its
  keys are exactly those names, each once, its message is the fixed prefix followed by
  the keys comma-joined, and the config is returned unchanged.
\<close>

theorem initMaps_unresolved:
  assumes "filepathAbs env (FilePath c) = Inr p"
    and "\<And>ks. mset (rangeKeys env ks) = mset ks"
    and "initMaps fuel env c = Some (r, c')"
    and "\<forall>i. r \<noteq> Some (DuplicateError i)" and "\<forall>g. r \<noteq> Some (GroupCycleError g)"
    and "unresolvedNames env c p \<noteq> []"
  shows "\<exists>keys. r = Some (NotFoundError keys) \<and> c' = c
           \<and> set keys = set (unresolvedNames env c p) \<and> distinct keys
           \<and> Error (NotFoundError keys)
               = ''A service or group could not be found for the following names: ''
                 @ joinStrings keys '', ''"
proof -
  have na: "\<forall>m. r \<noteq> Some (AbsError m)"
  proof (intro allI notI)
    fix m assume m: "r = Some (AbsError m)"
    have "serviceLoop env c ss st \<noteq> Inl (AbsError m)" for ss st
    proof (induction ss arbitrary: st)
      case Nil
      then show ?case by simp
    next
      case (Cons s ss)
      obtain svcs sk names where st: "st = (svcs, sk, names)" by (cases st)
      show ?case unfolding st using assms(1) Cons by (simp add: Let_def)
    qed
    moreover have "firstPass env c sk gs st \<noteq> Inl (AbsError m)" for sk gs st
      using firstPass_error by blast
    moreover have "secondPass fuel gs st \<noteq> Some (Inl (AbsError m))" for gs st
      using secondPass_error by blast
    ultimately show False using assms(3) m
      by (auto simp: initMaps_def split: sum.splits option.splits if_splits)
  qed
  from initMaps_completed [OF assms(3) na assms(4) assms(5)]
  obtain svcs sk names svcs' groups orph names' groups' orph' where
    sl: "serviceLoop env c (allServices c) (Map.empty, {}, {}) = Inr (svcs, sk, names)"
    and fp: "firstPass env c sk (allGroups c) (svcs, Map.empty, [], names) = Inr (svcs', groups, orph, names')"
    and sp: "secondPass fuel (allGroups c) (groups, orph) = Some (Inr (groups', orph'))"
    and r: "(r, c') = (if orph' \<noteq> [] then (Some (NotFoundError (rangeKeys env orph')), c)
                       else (None, c\<lparr>ServiceMap := svcs', GroupMap := groups'\<rparr>))"
    by blast
  have o: "set orph' = set (unresolvedNames env c p)" and d: "distinct orph'"
    using completed_facts [OF assms(1) sl fp sp] by blast+
  have ne: "orph' \<noteq> []" using o assms(6) by auto
  have "set (rangeKeys env orph') = set orph'" and "distinct (rangeKeys env orph')"
    using assms(2) d by (metis mset_eq_setD, metis mset_eq_imp_distinct_iff)
  then show ?thesis using r ne o by simp
qed

theorem initMaps_unresolved_witness:
  "unresolvedNames testPlatform orphanConfig ''/work/edward.json'' = [''c'', ''d'']
   \<and> initMaps 2 testPlatform orphanConfig = Some (Some (NotFoundError [''c'', ''d'']), orphanConfig)
   \<and> Error (NotFoundError [''c'', ''d''])
       = ''A service or group could not be found for the following names: c, d''"
proof -
  have h1: "filepathAbs testPlatform (FilePath orphanConfig) = Inr ''/work/edward.json''"
    by (simp add: orphanConfig_def testAbs)
  have h2: "\<And>ks. mset (rangeKeys testPlatform ks) = mset ks"
    by (simp add: testPlatform_def)
  have h3: "initMaps 2 testPlatform orphanConfig = Some (Some (NotFoundError [''c'', ''d'']), orphanConfig)"
    by (simp add: initMaps_def orphanConfig_def testConfig_def testPlatform_def testGroup_def
        intersect_def addToMap_def addOrphan_def Let_def numeral_2_eq_2)
  have h4: "\<forall>i. Some (NotFoundError [''c'', ''d'']) \<noteq> Some (DuplicateError i)" by simp
  have h5: "\<forall>g. Some (NotFoundError [''c'', ''d'']) \<noteq> Some (GroupCycleError g)" by simp
  have u: "unresolvedNames testPlatform orphanConfig ''/work/edward.json'' = [''c'', ''d'']"
    by (simp add: unresolvedNames_def matching_def allServices_def allGroups_def orphanConfig_def
        testConfig_def testGroup_def)
  then have h6: "unresolvedNames testPlatform orphanConfig ''/work/edward.json'' \<noteq> []" by simp
  from initMaps_unresolved [OF h1 h2 h3 h4 h5 h6] u h3 show ?thesis
    by simp
qed

section \<open>Services for another platform\<close>

text \<open>
  C8. Let a service fail the platform predicate. When \<open>initMaps\<close> returns the
  not-found error, the name of that service is not among its keys. When it succeeds,
  every entry of the service map stems from a service that matches the platform (it is
  that service's copy, up to the rewritten path), so the skipped service is not added,
  and the service children of every resolved group are entries of the service map, so
  the skipped service is not among them.
\<close>

theorem initMaps_skipped:
  assumes "filepathAbs env (FilePath c) = Inr p"
    and "\<And>ks. mset (rangeKeys env ks) = mset ks"
    and "s \<in> set (allServices c)" and "\<not> MatchesPlatform env (prepare c p s)"
    and "initMaps fuel env c = Some (r, c')"
  shows "(\<forall>keys. r = Some (NotFoundError keys) \<longrightarrow> Name s \<notin> set keys)
       \<and> (r = None \<longrightarrow>
            (\<forall>n sc. ServiceMap c' n = Some sc \<longrightarrow>
               (\<exists>s' \<in> set (allServices c). MatchesPlatform env (prepare c p s') \<and> Name s' = n
                    \<and> erasePath sc = erasePath (prepare c p s')))
          \<and> (\<forall>n g. GroupMap c' n = Some g \<longrightarrow> set (Services g) \<subseteq> dom (ServiceMap c')))"
proof (rule conjI)
 show "\<forall>keys. r = Some (NotFoundError keys) \<longrightarrow> Name s \<notin> set keys"
 proof (intro allI impI)
  fix keys assume k: "r = Some (NotFoundError keys)"
  from initMaps_completed [OF assms(5)] k
  obtain svcs sk names svcs' groups orph names' groups' orph' where
    sl: "serviceLoop env c (allServices c) (Map.empty, {}, {}) = Inr (svcs, sk, names)"
    and fp: "firstPass env c sk (allGroups c) (svcs, Map.empty, [], names) = Inr (svcs', groups, orph, names')"
    and sp: "secondPass fuel (allGroups c) (groups, orph) = Some (Inr (groups', orph'))"
    and r: "(r, c') = (if orph' \<noteq> [] then (Some (NotFoundError (rangeKeys env orph')), c)
                       else (None, c\<lparr>ServiceMap := svcs', GroupMap := groups'\<rparr>))"
    by auto
  have "keys = rangeKeys env orph'" using r k by (auto split: if_splits)
  then have "set keys = set orph'" using assms(2) by (metis mset_eq_setD)
  also have "\<dots> = set (unresolvedNames env c p)"
    using completed_facts(5) [OF assms(1) sl fp sp] .
  finally show "Name s \<notin> set keys"
    using assms(3,4) by (auto simp: unresolvedNames_def)
 qed
next
 show "r = None \<longrightarrow>
            (\<forall>n sc. ServiceMap c' n = Some sc \<longrightarrow>
               (\<exists>s' \<in> set (allServices c). MatchesPlatform env (prepare c p s') \<and> Name s' = n
                    \<and> erasePath sc = erasePath (prepare c p s')))
          \<and> (\<forall>n g. GroupMap c' n = Some g \<longrightarrow> set (Services g) \<subseteq> dom (ServiceMap c'))"
 proof
  assume k: "r = None"
  from initMaps_completed [OF assms(5)] k
  obtain svcs sk names svcs' groups orph names' groups' orph' where
    sl: "serviceLoop env c (allServices c) (Map.empty, {}, {}) = Inr (svcs, sk, names)"
    and fp: "firstPass env c sk (allGroups c) (svcs, Map.empty, [], names) = Inr (svcs', groups, orph, names')"
    and sp: "secondPass fuel (allGroups c) (groups, orph) = Some (Inr (groups', orph'))"
    and r: "(r, c') = (if orph' \<noteq> [] then (Some (NotFoundError (rangeKeys env orph')), c)
                       else (None, c\<lparr>ServiceMap := svcs', GroupMap := groups'\<rparr>))"
    by auto
  have c': "ServiceMap c' = svcs'" "GroupMap c' = groups'"
    using r k by (auto split: if_splits)
  have "\<forall>n sc. svcs' n = Some sc \<longrightarrow>
               (\<exists>s' \<in> set (allServices c). MatchesPlatform env (prepare c p s') \<and> Name s' = n
                    \<and> erasePath sc = erasePath (prepare c p s'))"
    using completed_facts(3) [OF assms(1) sl fp sp]
    by (fastforce simp: matching_def)
  moreover have "\<forall>n g. groups' n = Some g \<longrightarrow> set (Services g) \<subseteq> dom svcs'"
    using completed_facts(4) [OF assms(1) sl fp sp] .
  ultimately show "(\<forall>n sc. ServiceMap c' n = Some sc \<longrightarrow>
               (\<exists>s' \<in> set (allServices c). MatchesPlatform env (prepare c p s') \<and> Name s' = n
                    \<and> erasePath sc = erasePath (prepare c p s')))
          \<and> (\<forall>n g. GroupMap c' n = Some g \<longrightarrow> set (Services g) \<subseteq> dom (ServiceMap c'))"
    unfolding c' by blast
 qed
qed

theorem initMaps_skipped_witness:
  "\<not> MatchesPlatform testPlatform
        (prepare skipConfig ''/work/edward.json'' ((testService ''x'')\<lparr>Description := ''other platform''\<rparr>))
   \<and> (\<exists>c'. initMaps 1 testPlatform skipConfig = Some (None, c')
          \<and> ServiceMap c' ''x'' = None
          \<and> map_option Services (GroupMap c' ''g'') = Some []
          \<and> (\<forall>n g. GroupMap c' n = Some g \<longrightarrow> set (Services g) \<subseteq> dom (ServiceMap c')))"
proof -
  let ?s = "(testService ''x'')\<lparr>Description := ''other platform''\<rparr>"
  have h1: "filepathAbs testPlatform (FilePath skipConfig) = Inr ''/work/edward.json''"
    by (simp add: skipConfig_def testAbs)
  have h2: "\<And>ks. mset (rangeKeys testPlatform ks) = mset ks"
    by (simp add: testPlatform_def)
  have h3: "?s \<in> set (allServices skipConfig)"
    by (simp add: allServices_def skipConfig_def testConfig_def)
  have h4: "\<not> MatchesPlatform testPlatform (prepare skipConfig ''/work/edward.json'' ?s)"
    by (simp add: testPlatform_def prepare_def testService_def)
  obtain c' where h5: "initMaps 1 testPlatform skipConfig = Some (None, c')"
    and x: "ServiceMap c' ''x'' = None" and g: "map_option Services (GroupMap c' ''g'') = Some []"
    by (simp add: initMaps_def skipConfig_def testConfig_def testPlatform_def testService_def
        testGroup_def prepare_def intersect_def addToMap_def Let_def)
  from initMaps_skipped [OF h1 h2 h3 h4 h5] h4 h5 x g show ?thesis
    by simp
qed

section \<open>The cycle walk\<close>

lemma hasChildCycle_mono:
  "hasChildCycle n groups p cs = Some b \<Longrightarrow> n \<le> m \<Longrightarrow> hasChildCycle m groups p cs = Some b"
proof (induction n groups p cs arbitrary: m b rule: hasChildCycle.induct)
  case (1 groups parent children)
  then show ?case by simp
next
  case (2 n groups parent)
  from "2.prems"(2) obtain m' where "m = Suc m'" by (cases m) auto
  with "2.prems" show ?case by simp
next
  case (3 n groups parent sg rest)
  from "3.prems"(2) obtain m' where m: "m = Suc m'" and le: "n \<le> m'" by (cases m) auto
  show ?case
  proof (cases "parent = sg")
    case True
    with "3.prems" m show ?thesis by simp
  next
    case False
    from "3.prems"(1) False obtain g where g: "groups sg = Some g"
      by (auto split: option.splits)
    from "3.prems"(1) False g obtain b1 where b1: "hasChildCycle n groups parent (Groups g) = Some b1"
      by (auto split: option.splits)
    have i1: "hasChildCycle m' groups parent (Groups g) = Some b1"
      using "3.IH"(1) [OF False g b1 le] .
    show ?thesis
    proof (cases b1)
      case True
      with "3.prems"(1) False g b1 i1 m show ?thesis by simp
    next
      case f: False
      have r: "hasChildCycle (Suc n) groups parent rest = Some b"
        using "3.prems"(1) False g b1 f by simp
      have "hasChildCycle m groups parent rest = Some b"
        using "3.IH"(2) [OF False g b1 _ r "3.prems"(2)] f by simp
      with False g i1 f m show ?thesis by simp
    qed
  qed
qed

lemma storeEdges_step:
  "groups a = Some g \<Longrightarrow> c \<in> set (Groups g) \<Longrightarrow> (c, p) \<in> (storeEdges groups)\<^sup>*
     \<Longrightarrow> (a, p) \<in> (storeEdges groups)\<^sup>*"
  by (rule converse_rtrancl_into_rtrancl [of a c]) (auto simp: storeEdges_def)

lemma storeEdges_first:
  assumes "(a, p) \<in> (storeEdges groups)\<^sup>*" and "a \<noteq> p"
  shows "\<exists>g c. groups a = Some g \<and> c \<in> set (Groups g) \<and> (c, p) \<in> (storeEdges groups)\<^sup>*"
  using assms by (cases rule: converse_rtranclE) (auto simp: storeEdges_def)

lemma hasChildCycle_list:
  assumes "\<forall>v \<in> set cs. v = p \<or> (\<exists>g n. groups v = Some g
              \<and> (\<forall>fuel \<ge> n. hasChildCycle fuel groups p (Groups g) = Some (reaches groups (Groups g) p)))"
  shows "\<exists>n. \<forall>fuel \<ge> n. hasChildCycle fuel groups p cs = Some (reaches groups cs p)"
  using assms
proof (induction cs)
  case Nil
  have "hasChildCycle fuel groups p [] = Some (reaches groups [] p)" if "fuel \<ge> 1" for fuel
    using that by (cases fuel) (simp_all add: reaches_def)
  then show ?case by blast
next
  case (Cons sg rest)
  then obtain n1 where n1: "\<forall>fuel \<ge> n1. hasChildCycle fuel groups p rest = Some (reaches groups rest p)"
    by auto
  show ?case
  proof (cases "sg = p")
    case True
    have "hasChildCycle fuel groups p (sg # rest) = Some (reaches groups (sg # rest) p)"
      if "fuel \<ge> 1" for fuel
      using that True by (cases fuel) (simp_all add: reaches_def)
    then show ?thesis by blast
  next
    case False
    with Cons.prems obtain g n2 where g: "groups sg = Some g"
      and n2: "\<forall>fuel \<ge> n2. hasChildCycle fuel groups p (Groups g) = Some (reaches groups (Groups g) p)"
      by auto
    have "hasChildCycle fuel groups p (sg # rest) = Some (reaches groups (sg # rest) p)"
      if f: "fuel \<ge> max n1 (Suc n2)" for fuel
    proof -
      from f obtain k where k: "fuel = Suc k" and k2: "k \<ge> n2" by (cases fuel) auto
      have inner: "hasChildCycle k groups p (Groups g) = Some (reaches groups (Groups g) p)"
        using n2 k2 by simp
      show ?thesis
      proof (cases "reaches groups (Groups g) p")
        case True
        then have "(sg, p) \<in> (storeEdges groups)\<^sup>*"
          using g storeEdges_step unfolding reaches_def by blast
        then have "reaches groups (sg # rest) p" by (simp add: reaches_def)
        with True inner g False k show ?thesis by simp
      next
        case nr: False
        have "(sg, p) \<notin> (storeEdges groups)\<^sup>*"
        proof
          assume "(sg, p) \<in> (storeEdges groups)\<^sup>*"
          from storeEdges_first [OF this False] g nr show False
            by (auto simp: reaches_def)
        qed
        then have e: "reaches groups (sg # rest) p = reaches groups rest p"
          by (simp add: reaches_def)
        have "hasChildCycle fuel groups p rest = Some (reaches groups rest p)"
          using n1 f by simp
        with nr inner g False k e show ?thesis by simp
      qed
    qed
    then show ?thesis by blast
  qed
qed

lemma finite_storeEdges:
  assumes "finite (dom groups)" and "closedStore groups"
  shows "finite (storeEdges groups)"
proof -
  have "storeEdges groups \<subseteq> dom groups \<times> dom groups"
    using assms(2) by (auto simp: storeEdges_def closedStore_def)
  then show ?thesis using assms(1) by (meson finite_SigmaI finite_subset)
qed

lemma hasChildCycle_total:
  assumes fin: "finite (dom groups)" and cl: "closedStore groups"
    and ac: "acyclic (storeEdges groups)" and cs: "set cs \<subseteq> dom groups"
  shows "\<exists>n. \<forall>fuel \<ge> n. hasChildCycle fuel groups p cs = Some (reaches groups cs p)"
proof -
  have wf: "wf ((storeEdges groups)\<inverse>)"
    using finite_storeEdges [OF fin cl] ac by (rule finite_acyclic_wf_converse)
  have node: "v \<in> dom groups \<longrightarrow> v = p \<or> (\<exists>g n. groups v = Some g
              \<and> (\<forall>fuel \<ge> n. hasChildCycle fuel groups p (Groups g) = Some (reaches groups (Groups g) p)))"
    for v
    using wf
  proof (induction v rule: wf_induct_rule)
    case (less v)
    show ?case
    proof (intro impI)
      assume "v \<in> dom groups"
      then obtain g where g: "groups v = Some g" by auto
      have "\<forall>c \<in> set (Groups g). c = p \<or> (\<exists>g' n. groups c = Some g'
              \<and> (\<forall>fuel \<ge> n. hasChildCycle fuel groups p (Groups g') = Some (reaches groups (Groups g') p)))"
      proof
        fix c assume c: "c \<in> set (Groups g)"
        then have "(c, v) \<in> (storeEdges groups)\<inverse>" using g by (auto simp: storeEdges_def)
        moreover have "c \<in> dom groups" using cl g c by (auto simp: closedStore_def)
        ultimately show "c = p \<or> (\<exists>g' n. groups c = Some g'
              \<and> (\<forall>fuel \<ge> n. hasChildCycle fuel groups p (Groups g') = Some (reaches groups (Groups g') p)))"
          using less by blast
      qed
      from hasChildCycle_list [OF this] g
      show "v = p \<or> (\<exists>g n. groups v = Some g
              \<and> (\<forall>fuel \<ge> n. hasChildCycle fuel groups p (Groups g) = Some (reaches groups (Groups g) p)))"
        by blast
    qed
  qed
  have "\<forall>v \<in> set cs. v = p \<or> (\<exists>g n. groups v = Some g
              \<and> (\<forall>fuel \<ge> n. hasChildCycle fuel groups p (Groups g) = Some (reaches groups (Groups g) p)))"
    using node cs by blast
  then show ?thesis by (rule hasChildCycle_list)
qed

lemma rtrancl_out_edges:
  assumes "(x, p) \<in> (S \<union> {p} \<times> C)\<^sup>*"
  shows "(x, p) \<in> S\<^sup>*"
  using assms
proof (induction rule: converse_rtrancl_induct)
  case base
  then show ?case by simp
next
  case (step y z)
  show ?case
  proof (cases "y = p")
    case True
    then show ?thesis by simp
  next
    case False
    with step.hyps(1) have "(y, z) \<in> S" by auto
    then show ?thesis using step.IH by (rule converse_rtrancl_into_rtrancl)
  qed
qed

lemma acyclic_out_edges:
  assumes "acyclic S" and "\<forall>c \<in> set cs. (c, p) \<notin> S\<^sup>*"
  shows "acyclic (S \<union> {p} \<times> set cs)"
  using assms(2)
proof (induction cs)
  case Nil
  then show ?case using assms(1) by simp
next
  case (Cons c cs)
  have e: "S \<union> {p} \<times> set (c # cs) = insert (p, c) (S \<union> {p} \<times> set cs)" by auto
  have "(c, p) \<notin> (S \<union> {p} \<times> set cs)\<^sup>*"
    using Cons.prems rtrancl_out_edges by fastforce
  moreover have "acyclic (S \<union> {p} \<times> set cs)" using Cons by simp
  ultimately show ?case unfolding e by simp
qed

lemma groupChildren_total:
  assumes fin: "finite (dom groups)" and cl: "closedStore groups"
    and ac: "acyclic (storeEdges groups)"
    and cg: "set cg \<subseteq> dom groups" and nr: "\<not> reaches groups cg gn"
  shows "\<exists>n r. (\<forall>fuel \<ge> n. groupChildren fuel groups gn children (orph, cg) = Some r)
           \<and> (if reaches groups (cg @ filter (\<lambda>x. x \<in> dom groups) children) gn
               then r = Inl (GroupCycleError gn)
               else \<exists>orph'. r = Inr (orph', cg @ filter (\<lambda>x. x \<in> dom groups) children))"
  using cg nr
proof (induction children arbitrary: orph cg)
  case Nil
  then show ?case
    by (intro exI [of _ 0] exI [of _ "Inr (orph, cg)"]) simp
next
  case (Cons name rest)
  define st' where "st' = (case groups name of
              Some gr \<Rightarrow> (removeAll name orph, cg @ [name])
            | None \<Rightarrow> (orph, cg))"
  obtain orph1 cg1 where st: "st' = (orph1, cg1)" by (cases st')
  have cg1: "cg1 = cg @ filter (\<lambda>x. x \<in> dom groups) [name]"
    using st by (auto simp: st'_def split: option.splits)
  have sub: "set cg1 \<subseteq> dom groups" using Cons.prems(1) cg1 by auto
  have full: "cg @ filter (\<lambda>x. x \<in> dom groups) (name # rest) = cg1 @ filter (\<lambda>x. x \<in> dom groups) rest"
    using cg1 by simp
  from hasChildCycle_total [OF fin cl ac sub, of gn]
  obtain n1 where n1: "\<forall>fuel \<ge> n1. hasChildCycle fuel groups gn cg1 = Some (reaches groups cg1 gn)"
    by blast
  have unf: "groupChildren fuel groups gn (name # rest) (orph, cg)
      = (case hasChildCycle fuel groups gn cg1 of
             None \<Rightarrow> None
           | Some True \<Rightarrow> Some (Inl (GroupCycleError gn))
           | Some False \<Rightarrow> groupChildren fuel groups gn rest (orph1, cg1))" for fuel
    using st by (simp add: st'_def)
  show ?case
  proof (cases "reaches groups cg1 gn")
    case True
    have "\<forall>fuel \<ge> n1. groupChildren fuel groups gn (name # rest) (orph, cg) = Some (Inl (GroupCycleError gn))"
      using n1 True unf by simp
    moreover have "reaches groups (cg @ filter (\<lambda>x. x \<in> dom groups) (name # rest)) gn"
      unfolding full using True by (auto simp: reaches_def)
    ultimately show ?thesis by auto
  next
    case False
    from Cons.IH [OF sub False, of orph1]
    obtain n2 r where n2: "\<forall>fuel \<ge> n2. groupChildren fuel groups gn rest (orph1, cg1) = Some r"
      and r: "if reaches groups (cg1 @ filter (\<lambda>x. x \<in> dom groups) rest) gn
               then r = Inl (GroupCycleError gn)
               else \<exists>orph'. r = Inr (orph', cg1 @ filter (\<lambda>x. x \<in> dom groups) rest)"
      by blast
    have "\<forall>fuel \<ge> max n1 n2. groupChildren fuel groups gn (name # rest) (orph, cg) = Some r"
      using n1 n2 False unf by simp
    then show ?thesis using r unfolding full by blast
  qed
qed

lemma storeEdges_assign:
  assumes "groups gn = Some gr" and "Groups gr = []"
  shows "storeEdges (groups(gn \<mapsto> gr\<lparr>Groups := cs\<rparr>)) = storeEdges groups \<union> {gn} \<times> set cs"
  using assms by (auto simp: storeEdges_def split: if_splits)

lemma secondPass_total:
  assumes fin: "finite (dom groups)" and cl: "closedStore groups"
    and ac: "acyclic (storeEdges groups)"
    and di: "distinct (map GroupName gs)" and sub: "GroupName ` set gs \<subseteq> dom groups"
    and em: "\<forall>g \<in> set gs. \<forall>gr. groups (GroupName g) = Some gr \<longrightarrow> Groups gr = []"
  shows "\<exists>n r. (\<forall>fuel \<ge> n. secondPass fuel gs (groups, orph) = Some r)
           \<and> (case r of
                 Inl e \<Rightarrow> \<exists>g \<in> set gs. e = GroupCycleError (GroupName g)
                            \<and> (GroupName g, GroupName g) \<in> (storeEdges groups \<union> newEdges groups gs)\<^sup>+
               | Inr x \<Rightarrow> acyclic (storeEdges groups \<union> newEdges groups gs))"
  using fin cl ac di sub em
proof (induction gs arbitrary: groups orph)
  case Nil
  then show ?case
    by (intro exI [of _ 0] exI [of _ "Inr (groups, orph)"]) (simp add: newEdges_def)
next
  case (Cons g gs)
  let ?gn = "GroupName g"
  let ?S = "storeEdges groups"
  define cg1 where "cg1 = filter (\<lambda>x. x \<in> dom groups) (Children g)"
  from Cons.prems(5) obtain gr where gr: "groups ?gn = Some gr" by auto
  with Cons.prems(6) have gre: "Groups gr = []" by simp
  have one: "{?gn} \<times> set cg1 = newEdges groups [g]"
    by (auto simp: newEdges_def cg1_def)
  have split: "newEdges groups (g # gs) = newEdges groups [g] \<union> newEdges groups gs"
    by (auto simp: newEdges_def)
  have nr0: "\<not> reaches groups [] ?gn" by (simp add: reaches_def)
  have "\<exists>n r. (\<forall>fuel \<ge> n. groupChildren fuel groups ?gn (Children g) (orph, []) = Some r)
           \<and> (if reaches groups ([] @ filter (\<lambda>x. x \<in> dom groups) (Children g)) ?gn
               then r = Inl (GroupCycleError ?gn)
               else \<exists>orph'. r = Inr (orph', [] @ filter (\<lambda>x. x \<in> dom groups) (Children g)))"
    by (rule groupChildren_total [OF Cons.prems(1) Cons.prems(2) Cons.prems(3) _ nr0]) simp
  then obtain n1 r1 where n1: "\<forall>fuel \<ge> n1. groupChildren fuel groups ?gn (Children g) (orph, []) = Some r1"
    and r1: "if reaches groups cg1 ?gn then r1 = Inl (GroupCycleError ?gn)
             else \<exists>orph'. r1 = Inr (orph', cg1)"
    unfolding cg1_def append_Nil by blast
  show ?case
  proof (cases "reaches groups cg1 ?gn")
    case True
    then have r1': "r1 = Inl (GroupCycleError ?gn)" using r1 by simp
    have run: "\<forall>fuel \<ge> n1. secondPass fuel (g # gs) (groups, orph) = Some (Inl (GroupCycleError ?gn))"
      using n1 r1' by simp
    from True obtain c where c: "c \<in> set cg1" and cp: "(c, ?gn) \<in> ?S\<^sup>*"
      by (auto simp: reaches_def)
    have "(?gn, c) \<in> ?S \<union> newEdges groups (g # gs)"
      using c one split by auto
    moreover have "(c, ?gn) \<in> (?S \<union> newEdges groups (g # gs))\<^sup>*"
      using cp by (meson rtrancl_mono subsetD sup_ge1)
    ultimately have "(?gn, ?gn) \<in> (?S \<union> newEdges groups (g # gs))\<^sup>+"
      by (rule rtrancl_into_trancl2)
    with run show ?thesis
      by (intro exI [of _ n1] exI [of _ "Inl (GroupCycleError ?gn)"]) simp
  next
    case False
    then obtain orph1 where r1': "r1 = Inr (orph1, cg1)" using r1 by auto
    define groups1 where "groups1 = groups(?gn \<mapsto> gr\<lparr>Groups := cg1\<rparr>)"
    have run1: "\<forall>fuel \<ge> n1. secondPass fuel (g # gs) (groups, orph) = secondPass fuel gs (groups1, orph1)"
      using n1 r1' gr by (simp add: groups1_def)
    have dm: "dom groups1 = dom groups" using gr by (auto simp: groups1_def)
    have se: "storeEdges groups1 = ?S \<union> {?gn} \<times> set cg1"
      unfolding groups1_def using gr gre by (rule storeEdges_assign)
    have fin1: "finite (dom groups1)" using Cons.prems(1) dm by simp
    have cl1: "closedStore groups1"
      using Cons.prems(2) unfolding closedStore_def dm
      by (auto simp: groups1_def cg1_def split: if_splits)
    have ac1: "acyclic (storeEdges groups1)"
      unfolding se using Cons.prems(3) False
      by (intro acyclic_out_edges) (auto simp: reaches_def)
    have di1: "distinct (map GroupName gs)" using Cons.prems(4) by simp
    have sub1: "GroupName ` set gs \<subseteq> dom groups1" using Cons.prems(5) dm by auto
    have em1: "\<forall>g' \<in> set gs. \<forall>gr'. groups1 (GroupName g') = Some gr' \<longrightarrow> Groups gr' = []"
    proof (intro ballI allI impI)
      fix g' gr' assume g': "g' \<in> set gs" and l: "groups1 (GroupName g') = Some gr'"
      have "?gn \<notin> GroupName ` set gs" using Cons.prems(4) by simp
      then have "GroupName g' \<noteq> ?gn" using g' by (metis imageI)
      then have "groups (GroupName g') = Some gr'" using l by (simp add: groups1_def)
      with Cons.prems(6) g' show "Groups gr' = []" by simp
    qed
    from Cons.IH [OF fin1 cl1 ac1 di1 sub1 em1, of orph1]
    obtain n2 r where n2: "\<forall>fuel \<ge> n2. secondPass fuel gs (groups1, orph1) = Some r"
      and r: "case r of
                 Inl e \<Rightarrow> \<exists>g \<in> set gs. e = GroupCycleError (GroupName g)
                            \<and> (GroupName g, GroupName g) \<in> (storeEdges groups1 \<union> newEdges groups1 gs)\<^sup>+
               | Inr x \<Rightarrow> acyclic (storeEdges groups1 \<union> newEdges groups1 gs)"
      by blast
    have ne: "newEdges groups1 gs = newEdges groups gs"
      by (simp add: newEdges_def dm)
    have all: "storeEdges groups1 \<union> newEdges groups1 gs = ?S \<union> newEdges groups (g # gs)"
      unfolding se ne one split by auto
    have "\<forall>fuel \<ge> max n1 n2. secondPass fuel (g # gs) (groups, orph) = Some r"
      using run1 n2 by simp
    moreover have "case r of
                 Inl e \<Rightarrow> \<exists>g' \<in> set (g # gs). e = GroupCycleError (GroupName g')
                            \<and> (GroupName g', GroupName g') \<in> (?S \<union> newEdges groups (g # gs))\<^sup>+
               | Inr x \<Rightarrow> acyclic (?S \<union> newEdges groups (g # gs))"
      using r unfolding all by (cases r) auto
    ultimately show ?thesis by blast
  qed
qed

lemma groupChildren_mono:
  "groupChildren n groups gn children st = Some r \<Longrightarrow> n \<le> m
     \<Longrightarrow> groupChildren m groups gn children st = Some r"
proof (induction children arbitrary: st)
  case Nil
  then show ?case by simp
next
  case (Cons name rest)
  obtain orph cg where st: "st = (orph, cg)" by (cases st)
  define st' where "st' = (case groups name of
              Some gr \<Rightarrow> (removeAll name orph, cg @ [name])
            | None \<Rightarrow> (orph, cg))"
  obtain orph1 cg1 where st1: "st' = (orph1, cg1)" by (cases st')
  have unf: "groupChildren fuel groups gn (name # rest) st
      = (case hasChildCycle fuel groups gn cg1 of
             None \<Rightarrow> None
           | Some True \<Rightarrow> Some (Inl (GroupCycleError gn))
           | Some False \<Rightarrow> groupChildren fuel groups gn rest (orph1, cg1))" for fuel
    using st1 unfolding st by (simp add: st'_def)
  from Cons.prems(1) obtain b where b: "hasChildCycle n groups gn cg1 = Some b"
    unfolding unf by (auto split: option.splits)
  then have b': "hasChildCycle m groups gn cg1 = Some b"
    using Cons.prems(2) by (rule hasChildCycle_mono)
  show ?case
  proof (cases b)
    case True
    with Cons.prems(1) b b' show ?thesis unfolding unf by simp
  next
    case False
    with Cons.prems(1) b have "groupChildren n groups gn rest (orph1, cg1) = Some r"
      unfolding unf by simp
    from Cons.IH [OF this Cons.prems(2)] False b' show ?thesis unfolding unf by simp
  qed
qed

lemma secondPass_mono:
  "secondPass n gs st = Some r \<Longrightarrow> n \<le> m \<Longrightarrow> secondPass m gs st = Some r"
proof (induction gs arbitrary: st)
  case Nil
  then show ?case by simp
next
  case (Cons g gs)
  obtain groups orph where st: "st = (groups, orph)" by (cases st)
  from Cons.prems(1) obtain r1 where
    r1: "groupChildren n groups (GroupName g) (Children g) (orph, []) = Some r1"
    unfolding st by (auto split: option.splits)
  then have r1': "groupChildren m groups (GroupName g) (Children g) (orph, []) = Some r1"
    using Cons.prems(2) by (rule groupChildren_mono)
  show ?case
  proof (cases r1)
    case (Inl e)
    with Cons.prems(1) r1 r1' show ?thesis unfolding st by simp
  next
    case (Inr x)
    obtain orph1 cg1 where x: "x = (orph1, cg1)" by (cases x)
    define groups1 where "groups1 = (case groups (GroupName g) of
                None \<Rightarrow> groups
              | Some gr \<Rightarrow> groups(GroupName g \<mapsto> gr\<lparr>Groups := cg1\<rparr>))"
    have "secondPass n gs (groups1, orph1) = Some r"
      using Cons.prems(1) r1 Inr x unfolding st by (simp add: groups1_def)
    from Cons.IH [OF this Cons.prems(2)] r1' Inr x show ?thesis
      unfolding st by (simp add: groups1_def)
  qed
qed

lemma collisionFree_fresh:
  "collisionFree used idss \<Longrightarrow> ids \<in> set idss \<Longrightarrow> v \<in> set ids \<Longrightarrow> v \<notin> used"
  by (induction idss arbitrary: used) auto

lemma collisionFree_distinct_groups:
  "collisionFree used (map groupIds gs) \<Longrightarrow> distinct (map GroupName gs)"
proof (induction gs arbitrary: used)
  case Nil
  then show ?case by simp
next
  case (Cons g gs)
  then have f: "collisionFree (used \<union> set (groupIds g)) (map groupIds gs)" by simp
  have "GroupName g \<notin> GroupName ` set gs"
  proof
    assume "GroupName g \<in> GroupName ` set gs"
    then obtain g' where g': "g' \<in> set gs" and e: "GroupName g' = GroupName g" by auto
    have "GroupName g' \<notin> used \<union> set (groupIds g)"
      using f g' by (intro collisionFree_fresh [of _ "map groupIds gs" "groupIds g'"])
        (auto simp: groupIds_def)
    then show False using e by (simp add: groupIds_def)
  qed
  with Cons.IH [OF f] show ?case by simp
qed

lemma cycleConfig_edges:
  "(''a'', ''b'') \<in> groupEdges cycleConfig" "(''b'', ''a'') \<in> groupEdges cycleConfig"
  by (simp_all add: groupEdges_def allGroups_def cycleConfig_def testConfig_def testGroup_def)

lemma cycleConfig_run:
  "initMaps 2 testPlatform cycleConfig = Some (Some (GroupCycleError ''b''), cycleConfig)"
  by (simp add: initMaps_def cycleConfig_def testConfig_def testPlatform_def testGroup_def
      intersect_def addToMap_def addOrphan_def Let_def numeral_2_eq_2)

text \<open>With enough depth for the cycle walk, \<open>initMaps\<close> returns on every config.\<close>

lemma initMaps_returns: "\<exists>n. \<forall>fuel \<ge> n. initMaps fuel env c \<noteq> None"
proof (cases "serviceLoop env c (allServices c) (Map.empty, {}, {})")
  case (Inl e)
  then show ?thesis by (simp add: initMaps_def allServices_def)
next
  case (Inr a)
  obtain svcs sk names where a: "a = (svcs, sk, names)" by (cases a)
  show ?thesis
  proof (cases "firstPass env c sk (allGroups c) (svcs, Map.empty, [], names)")
    case (Inl e)
    then show ?thesis using Inr a by (simp add: initMaps_def allServices_def allGroups_def)
  next
    case fp: (Inr b)
    obtain svcs' groups orph names' where b: "b = (svcs', groups, orph, names')" by (cases b)
    from firstPass_success [OF fp [unfolded b]]
    have dg: "dom groups = GroupName ` set (allGroups c)"
      and em: "\<forall>n gr. groups n = Some gr \<longrightarrow> Groups gr = []"
      and cf: "collisionFree names (map groupIds (allGroups c))"
      by auto
    have "finite (dom groups)" unfolding dg by simp
    moreover have "closedStore groups" using em by (simp add: closedStore_def)
    moreover have "storeEdges groups = {}" using em by (auto simp: storeEdges_def)
    then have "acyclic (storeEdges groups)" by (simp add: acyclic_def)
    moreover have "distinct (map GroupName (allGroups c))"
      using cf by (rule collisionFree_distinct_groups)
    moreover have "GroupName ` set (allGroups c) \<subseteq> dom groups" using dg by simp
    moreover have "\<forall>g \<in> set (allGroups c). \<forall>gr. groups (GroupName g) = Some gr \<longrightarrow> Groups gr = []"
      using em by blast
    ultimately obtain n r where "\<forall>fuel \<ge> n. secondPass fuel (allGroups c) (groups, orph) = Some r"
      using secondPass_total [of groups "allGroups c" orph] by blast
    then have "\<forall>fuel \<ge> n. initMaps fuel env c \<noteq> None"
      using Inr a fp b
      by (auto simp: initMaps_def allServices_def allGroups_def split: sum.splits prod.splits)
    then show ?thesis by blast
  qed
qed

section \<open>Groups that contain themselves\<close>

text \<open>
  C3, as the claim states it, fails. Group a has the child b and group b has the child
  a, so a contains itself; resolution fails with the cycle error of b, whose message
  does not name a.
\<close>

theorem initMaps_cycle_counterexample:
  "(''a'', ''a'') \<in> (groupEdges cycleConfig)\<^sup>+
   \<and> initMaps 2 testPlatform cycleConfig = Some (Some (GroupCycleError ''b''), cycleConfig)
   \<and> Error (GroupCycleError ''b'') = ''group cycle: b''"
proof -
  have "(''a'', ''a'') \<in> (groupEdges cycleConfig)\<^sup>+"
    using cycleConfig_edges by (meson trancl.intros)
  then show ?thesis using cycleConfig_run by simp
qed

text \<open>
  C3, amended. Let no identifier be in use twice (so that no duplicate error comes
  first). If some group directly or transitively contains itself, then \<open>initMaps\<close>, once
  the cycle walk is given enough depth, fails with the cycle error of one declared
  group that contains itself, whose message is "group cycle: " followed by its name;
  the config is unchanged. If no group contains itself, the cycle error is never
  returned, whatever the depth, and with enough depth \<open>initMaps\<close> returns.
\<close>

theorem initMaps_cycle:
  assumes abs: "filepathAbs env (FilePath c) = Inr p"
    and cf: "collisionFree {} (identifierLists env c p)"
  shows "((\<exists>g. (g, g) \<in> (groupEdges c)\<^sup>+) \<longrightarrow>
            (\<exists>g n. g \<in> GroupName ` set (allGroups c) \<and> (g, g) \<in> (groupEdges c)\<^sup>+
               \<and> (\<forall>fuel \<ge> n. initMaps fuel env c = Some (Some (GroupCycleError g), c))
               \<and> Error (GroupCycleError g) = ''group cycle: '' @ g))
       \<and> (acyclic (groupEdges c) \<longrightarrow>
            (\<forall>fuel g c'. initMaps fuel env c \<noteq> Some (Some (GroupCycleError g), c'))
            \<and> (\<exists>n. \<forall>fuel \<ge> n. initMaps fuel env c \<noteq> None))"
proof -
  let ?A = "map serviceIds (matching env c p (allServices c))"
  let ?B = "map groupIds (allGroups c)"
  have fa: "collisionFree {} ?A" and fb: "collisionFree (inUse ?A) ?B"
    using cf by (simp_all add: identifierLists_def collisionFree_append)
  from serviceLoop_result [OF abs, of "{}" "allServices c" Map.empty "{}"] fa
  obtain svcs sk where sl: "serviceLoop env c (allServices c) (Map.empty, {}, {}) = Inr (svcs, sk, inUse ?A)"
    using firstCollision_not_free by auto
  from firstPass_result [of "inUse ?A" "allGroups c" env c sk svcs Map.empty "[]"] fb
  obtain svcs' groups orph names' where
    fp: "firstPass env c sk (allGroups c) (svcs, Map.empty, [], inUse ?A) = Inr (svcs', groups, orph, names')"
    using firstCollision_not_free by blast
  from firstPass_success [OF fp]
  have dg: "dom groups = GroupName ` set (allGroups c)"
    and em: "\<forall>n gr. groups n = Some gr \<longrightarrow> Groups gr = []"
    by auto
  have im: "initMaps fuel env c =
      (case secondPass fuel (allGroups c) (groups, orph) of
                  None \<Rightarrow> None
                | Some (Inl e) \<Rightarrow> Some (Some e, c)
                | Some (Inr (groups', orph')) \<Rightarrow>
                    if length orph' > 0
                    then Some (Some (NotFoundError (rangeKeys env orph')), c)
                    else Some (None, c\<lparr>ServiceMap := svcs', GroupMap := groups'\<rparr>))" for fuel
    using sl fp by (simp add: initMaps_def allServices_def allGroups_def)
  have se: "storeEdges groups = {}" using em by (auto simp: storeEdges_def)
  have fin: "finite (dom groups)" unfolding dg by simp
  have cl: "closedStore groups" using em by (simp add: closedStore_def)
  have ac: "acyclic (storeEdges groups)" unfolding se by (simp add: acyclic_def)
  have di: "distinct (map GroupName (allGroups c))"
    using fb by (rule collisionFree_distinct_groups)
  have sub: "GroupName ` set (allGroups c) \<subseteq> dom groups" using dg by simp
  have em': "\<forall>g \<in> set (allGroups c). \<forall>gr. groups (GroupName g) = Some gr \<longrightarrow> Groups gr = []"
    using em by blast
  have ne: "storeEdges groups \<union> newEdges groups (allGroups c) = groupEdges c"
    unfolding se by (auto simp: newEdges_def groupEdges_def dg)
  from secondPass_total [OF fin cl ac di sub em', of orph]
  obtain n r where run: "\<forall>fuel \<ge> n. secondPass fuel (allGroups c) (groups, orph) = Some r"
    and r: "case r of
                 Inl e \<Rightarrow> \<exists>g \<in> set (allGroups c). e = GroupCycleError (GroupName g)
                            \<and> (GroupName g, GroupName g) \<in> (groupEdges c)\<^sup>+
               | Inr x \<Rightarrow> acyclic (groupEdges c)"
    unfolding ne by blast
  have cyc: "\<exists>g n. g \<in> GroupName ` set (allGroups c) \<and> (g, g) \<in> (groupEdges c)\<^sup>+
               \<and> (\<forall>fuel \<ge> n. initMaps fuel env c = Some (Some (GroupCycleError g), c))
               \<and> Error (GroupCycleError g) = ''group cycle: '' @ g"
    if "\<exists>g. (g, g) \<in> (groupEdges c)\<^sup>+"
  proof (cases r)
    case (Inl e)
    with r obtain g where g: "g \<in> set (allGroups c)" and e: "e = GroupCycleError (GroupName g)"
      and gg: "(GroupName g, GroupName g) \<in> (groupEdges c)\<^sup>+"
      by auto
    have "\<forall>fuel \<ge> n. initMaps fuel env c = Some (Some (GroupCycleError (GroupName g)), c)"
      using run Inl e by (simp add: im)
    with g gg show ?thesis by auto
  next
    case (Inr x)
    with r have "acyclic (groupEdges c)" by simp
    with that show ?thesis by (simp add: acyclic_def)
  qed
  have acy: "(\<forall>fuel g c'. initMaps fuel env c \<noteq> Some (Some (GroupCycleError g), c'))
            \<and> (\<exists>n. \<forall>fuel \<ge> n. initMaps fuel env c \<noteq> None)"
    if a: "acyclic (groupEdges c)"
  proof (cases r)
    case (Inl e)
    with r a show ?thesis by (auto simp: acyclic_def)
  next
    case (Inr x)
    obtain groups' orph' where x: "x = (groups', orph')" by (cases x)
    have tot: "\<forall>fuel \<ge> n. initMaps fuel env c \<noteq> None"
      using run Inr x by (simp add: im)
    have "initMaps fuel env c \<noteq> Some (Some (GroupCycleError g), c')" for fuel g c'
    proof
      assume h: "initMaps fuel env c = Some (Some (GroupCycleError g), c')"
      then obtain y where y: "secondPass fuel (allGroups c) (groups, orph) = Some y"
        unfolding im by (auto split: option.splits)
      have "secondPass (max fuel n) (allGroups c) (groups, orph) = Some y"
        using y by (rule secondPass_mono) simp
      then have "y = Inr (groups', orph')" using run Inr x by simp
      with h y show False unfolding im by (simp split: if_splits)
    qed
    with tot show ?thesis by blast
  qed
  from cyc acy show ?thesis by blast
qed

theorem initMaps_cycle_witness:
  "filepathAbs testPlatform (FilePath cycleConfig) = Inr ''/work/edward.json''
   \<and> collisionFree {} (identifierLists testPlatform cycleConfig ''/work/edward.json'')
   \<and> (''b'', ''b'') \<in> (groupEdges cycleConfig)\<^sup>+
   \<and> (\<exists>g n. g \<in> GroupName ` set (allGroups cycleConfig) \<and> (g, g) \<in> (groupEdges cycleConfig)\<^sup>+
         \<and> (\<forall>fuel \<ge> n. initMaps fuel testPlatform cycleConfig
                            = Some (Some (GroupCycleError g), cycleConfig)))"
proof -
  have h1: "filepathAbs testPlatform (FilePath cycleConfig) = Inr ''/work/edward.json''"
    by (simp add: cycleConfig_def testAbs)
  have h2: "collisionFree {} (identifierLists testPlatform cycleConfig ''/work/edward.json'')"
    by (simp add: identifierLists_def matching_def allServices_def allGroups_def cycleConfig_def
        testConfig_def testGroup_def groupIds_def)
  have b: "(''b'', ''b'') \<in> (groupEdges cycleConfig)\<^sup>+"
    using cycleConfig_edges by (meson trancl.intros)
  then have "\<exists>g. (g, g) \<in> (groupEdges cycleConfig)\<^sup>+" by blast
  with initMaps_cycle [OF h1 h2] h1 h2 b show ?thesis by blast
qed

end
